theory Spec2Isabelle
  imports Main "HOL-Library.Multiset" "HOL-Library.AList"
begin

section \<open>Data model (dispatcher.go, lines 18-27)\<close>

text \<open>
  A Go \<^verbatim>\<open>map[string]string\<close> is an association list with pairwise distinct keys.
  The order of the list stands for the order in which one \<^verbatim>\<open>range\<close> over the map
  enumerates it (Go leaves that order unspecified), so a statement for every list
  covers every enumeration order. \<open>Headers\<close> is only ever ranged over, where a nil
  map and an empty one behave alike: both are \<open>[]\<close>. \<open>Body\<close> is tested against nil,
  so it is an option: \<open>None\<close> is the nil map.
\<close>

record RequestConfig =
  URL :: string
  Method :: string
  Headers :: "(string \<times> string) list"
  Body :: "(string \<times> string) list option"

record Config =
  Requests :: "RequestConfig list"

section \<open>The library calls of sendRequest\<close>

text \<open>
  An outbound \<^verbatim>\<open>*http.Request\<close>: the method, the target, the header (Go's
  \<^verbatim>\<open>map[string][]string\<close>) and the payload (\<open>None\<close>: a nil body reader).
\<close>

record request =
  rq_Method :: string
  rq_URL :: string
  rq_Header :: "string \<rightharpoonup> string list"
  rq_Body :: "string option"

text \<open>
  A received response is what \<^verbatim>\<open>ioutil.ReadAll(resp.Body)\<close> will give: the text of a
  read error, or all the bytes of the body.
\<close>

datatype response = Response (ReadAll: "string + string")

text \<open>
  One network round trip, \<^verbatim>\<open>client.Do(req)\<close>: the text of the transport error or the
  response. Every execution of sendRequest gets a round-trip function of its own,
  so nothing is assumed about the network answering two executions alike.
\<close>

type_synonym round_trip = "request \<Rightarrow> string + response"

text \<open>A parsed JSON text; the members of an object in the order of the text.\<close>

datatype json =
    JNull
  | JBool bool
  | JNumber string
  | JString string
  | JArray "json list"
  | JObject "(string \<times> json) list"

text \<open>
  The functions of Go's standard library whose results the program only passes on
  are parameters of the model:
  \<^item> \<open>NewRequest_error method url\<close>: the error \<^verbatim>\<open>http.NewRequest\<close> reports for an
    invalid method or an unparsable target (\<open>None\<close>: no error);
  \<^item> \<open>json_Marshal\<close>: \<^verbatim>\<open>json.Marshal\<close> on a \<^verbatim>\<open>map[string]string\<close> (it cannot fail
    on that type, which is why the source drops its error);
  \<^item> \<open>json_syntax\<close>: the JSON scanner, \<open>None\<close> on a syntax error;
  \<^item> \<open>json_foldName\<close>: the case folding under which \<^verbatim>\<open>json.Unmarshal\<close> matches
    an object key against a struct field's name.
\<close>

record golib =
  NewRequest_error :: "string \<Rightarrow> string \<Rightarrow> string option"
  json_Marshal :: "(string \<times> string) list \<Rightarrow> string"
  json_syntax :: "string \<Rightarrow> json option"
  json_foldName :: "string \<Rightarrow> string"

text \<open>
  \<^verbatim>\<open>http.NewRequest(method, url, body)\<close>: an empty method means GET; the new
  request has an empty header and the given body reader.
\<close>

definition http_NewRequest :: "golib \<Rightarrow> string \<Rightarrow> string \<Rightarrow> string option \<Rightarrow> string + request" where
  "http_NewRequest L method url body =
     (case NewRequest_error L method url of
        Some err \<Rightarrow> Inl err
      | None \<Rightarrow> Inr \<lparr>rq_Method = (if method = [] then ''GET'' else method),
                      rq_URL = url, rq_Header = Map.empty, rq_Body = body\<rparr>)"

text \<open>
  \<^verbatim>\<open>textproto.CanonicalMIMEHeaderKey\<close>, under which \<^verbatim>\<open>Header.Set\<close> stores a key: a
  key made of header-field bytes only gets its first letter and every letter after
  a hyphen in upper case and all other letters in lower case; any other key is
  left as it is.
\<close>

definition validHeaderFieldByte :: "char \<Rightarrow> bool" where
  "validHeaderFieldByte c =
     (let n = (of_char c :: nat) in
        (48 \<le> n \<and> n \<le> 57) \<or> (65 \<le> n \<and> n \<le> 90) \<or> (97 \<le> n \<and> n \<le> 122) \<or>
        n \<in> set [33, 35, 36, 37, 38, 39, 42, 43, 45, 46, 94, 95, 96, 124, 126])"

definition canon_byte :: "bool \<Rightarrow> char \<Rightarrow> char" where
  "canon_byte upper c =
     (let n = (of_char c :: nat) in
        if upper \<and> 97 \<le> n \<and> n \<le> 122 then char_of (n - 32)
        else if \<not> upper \<and> 65 \<le> n \<and> n \<le> 90 then char_of (n + 32)
        else c)"

fun canonicalMIMEHeaderKey :: "bool \<Rightarrow> string \<Rightarrow> string" where
  "canonicalMIMEHeaderKey upper [] = []"
| "canonicalMIMEHeaderKey upper (c # cs) =
     canon_byte upper c # canonicalMIMEHeaderKey (canon_byte upper c = CHR ''-'') cs"

definition CanonicalMIMEHeaderKey :: "string \<Rightarrow> string" where
  "CanonicalMIMEHeaderKey s =
     (if list_all validHeaderFieldByte s then canonicalMIMEHeaderKey True s else s)"

text \<open>\<^verbatim>\<open>req.Header.Set(key, value)\<close>: the canonical key now holds the one value.\<close>

definition Header_Set :: "string \<Rightarrow> string \<Rightarrow> request \<Rightarrow> request" where
  "Header_Set key val req =
     req\<lparr>rq_Header := (rq_Header req)(CanonicalMIMEHeaderKey key \<mapsto> [val])\<rparr>"

section \<open>sendRequest (dispatcher.go, lines 35-73)\<close>

text \<open>
  What one execution of sendRequest does to the world outside its own variables,
  in the order it does it.
\<close>

datatype event =
    SetHeader string string
  | ClientDo request
  | ReadAllBody
  | BodyClose
  | ChanSend string
  | WgDone

text \<open>Lines 42-47: the outbound request is built with or without a payload.\<close>

definition new_request :: "golib \<Rightarrow> RequestConfig \<Rightarrow> string + request" where
  "new_request L config =
     (if Method config = ''POST'' \<and> Body config \<noteq> None
      then http_NewRequest L (Method config) (URL config)
             (Some (json_Marshal L (the (Body config))))
      else http_NewRequest L (Method config) (URL config) None)"

text \<open>Lines 54-56: the loop over the header map.\<close>

definition set_headers :: "RequestConfig \<Rightarrow> request \<Rightarrow> request" where
  "set_headers config req = fold (\<lambda>(key, val). Header_Set key val) (Headers config) req"

text \<open>
  The whole function. \<^verbatim>\<open>fmt.Sprintf\<close> with \<^verbatim>\<open>%s\<close> and \<^verbatim>\<open>%v\<close> puts the target, the
  error's text and the body into the line as they are. The deferred calls run last,
  the latest first: \<^verbatim>\<open>resp.Body.Close()\<close>, then \<^verbatim>\<open>wg.Done()\<close>.
\<close>

definition sendRequest :: "golib \<Rightarrow> round_trip \<Rightarrow> RequestConfig \<Rightarrow> event list" where
  "sendRequest L Do config =
     (case new_request L config of
        Inl err \<Rightarrow>
          [ChanSend (''Error creating request for '' @ URL config @ '': '' @ err), WgDone]
      | Inr req \<Rightarrow>
          map (\<lambda>(key, val). SetHeader key val) (Headers config) @
          ClientDo (set_headers config req) #
          (case Do (set_headers config req) of
             Inl err \<Rightarrow>
               [ChanSend (''Error sending request to '' @ URL config @ '': '' @ err), WgDone]
           | Inr resp \<Rightarrow>
               ReadAllBody #
               (case ReadAll resp of
                  Inl err \<Rightarrow>
                    [ChanSend (''Error reading response from '' @ URL config @ '': '' @ err),
                     BodyClose, WgDone]
                | Inr body \<Rightarrow>
                    [ChanSend (''Response from '' @ URL config @ '': '' @ body),
                     BodyClose, WgDone])))"

text \<open>Projections of a trace: the lines sent, the round trips, the header writes.\<close>

definition sent_lines :: "event list \<Rightarrow> string list" where
  "sent_lines tr = concat (map (\<lambda>e. case e of ChanSend m \<Rightarrow> [m] | _ \<Rightarrow> []) tr)"

definition round_trips :: "event list \<Rightarrow> request list" where
  "round_trips tr = concat (map (\<lambda>e. case e of ClientDo q \<Rightarrow> [q] | _ \<Rightarrow> []) tr)"

definition header_writes :: "event list \<Rightarrow> (string \<times> string) list" where
  "header_writes tr = concat (map (\<lambda>e. case e of SetHeader k v \<Rightarrow> [(k, v)] | _ \<Rightarrow> []) tr)"

section \<open>loadConfigFromBody (dispatcher.go, lines 29-33)\<close>

text \<open>
  \<^verbatim>\<open>json.Unmarshal(body, &config)\<close>, following the rules of encoding/json for the
  types of lines 18-27. The scanner checks the whole text first. Then each JSON
  value is decoded into the Go value that is already there:
  \<^item> null leaves a string or a struct as it is and makes a map or a slice nil;
  \<^item> a JSON string replaces a string;
  \<^item> an object decoded into a map keeps the entries of the map and stores its
    members, each decoded into a fresh empty string;
  \<^item> an object decoded into a struct decodes each member whose key matches a
    field into that field, in the order of the text, and ignores every other
    member (the decoder is not told to disallow unknown fields);
  \<^item> an array decoded into a slice decodes element \<open>i\<close> into the element the
    slice has at \<open>i\<close>, or into a zero element, and the slice gets the array's length;
  \<^item> any other combination is an \<^verbatim>\<open>UnmarshalTypeError\<close>.
  Go goes on decoding after a type error and returns the earliest one together with
  the partly filled Config. Both callers drop the Config when the error is set, so
  the model returns the error alone.
\<close>

datatype json_error = SyntaxError | UnmarshalTypeError

fun unmarshal_string :: "json \<Rightarrow> string \<Rightarrow> json_error + string" where
  "unmarshal_string (JString s) old = Inr s"
| "unmarshal_string JNull old = Inr old"
| "unmarshal_string j old = Inl UnmarshalTypeError"

fun unmarshal_entries ::
  "(string \<times> json) list \<Rightarrow> (string \<times> string) list \<Rightarrow> json_error + (string \<times> string) list" where
  "unmarshal_entries [] m = Inr m"
| "unmarshal_entries ((k, j) # ms) m =
     (case unmarshal_string j [] of
        Inl e \<Rightarrow> Inl e
      | Inr s \<Rightarrow> unmarshal_entries ms (AList.update k s m))"

fun unmarshal_map ::
  "json \<Rightarrow> (string \<times> string) list option \<Rightarrow> json_error + (string \<times> string) list option" where
  "unmarshal_map JNull old = Inr None"
| "unmarshal_map (JObject ms) old =
     (case unmarshal_entries ms (case old of None \<Rightarrow> [] | Some m \<Rightarrow> m) of
        Inl e \<Rightarrow> Inl e
      | Inr m \<Rightarrow> Inr (Some m))"
| "unmarshal_map j old = Inl UnmarshalTypeError"

definition key_matches :: "golib \<Rightarrow> string \<Rightarrow> string \<Rightarrow> bool" where
  "key_matches L key name = (json_foldName L key = json_foldName L name)"

text \<open>The keys that match a field of a descriptor (lines 19-22).\<close>

definition is_RequestConfig_field :: "golib \<Rightarrow> string \<Rightarrow> bool" where
  "is_RequestConfig_field L key =
     (key_matches L key ''url'' \<or> key_matches L key ''method'' \<or>
      key_matches L key ''headers'' \<or> key_matches L key ''body'')"

text \<open>One member of a descriptor object; the field tags are those of lines 19-22.\<close>

definition unmarshal_RequestConfig_field ::
  "golib \<Rightarrow> string \<Rightarrow> json \<Rightarrow> RequestConfig \<Rightarrow> json_error + RequestConfig" where
  "unmarshal_RequestConfig_field L key j c =
     (if key_matches L key ''url'' then
        (case unmarshal_string j (URL c) of Inl e \<Rightarrow> Inl e | Inr s \<Rightarrow> Inr (c\<lparr>URL := s\<rparr>))
      else if key_matches L key ''method'' then
        (case unmarshal_string j (Method c) of Inl e \<Rightarrow> Inl e | Inr s \<Rightarrow> Inr (c\<lparr>Method := s\<rparr>))
      else if key_matches L key ''headers'' then
        (case unmarshal_map j (Some (Headers c)) of
           Inl e \<Rightarrow> Inl e
         | Inr m \<Rightarrow> Inr (c\<lparr>Headers := (case m of None \<Rightarrow> [] | Some h \<Rightarrow> h)\<rparr>))
      else if key_matches L key ''body'' then
        (case unmarshal_map j (Body c) of Inl e \<Rightarrow> Inl e | Inr m \<Rightarrow> Inr (c\<lparr>Body := m\<rparr>))
      else Inr c)"

fun unmarshal_RequestConfig_fields ::
  "golib \<Rightarrow> (string \<times> json) list \<Rightarrow> RequestConfig \<Rightarrow> json_error + RequestConfig" where
  "unmarshal_RequestConfig_fields L [] c = Inr c"
| "unmarshal_RequestConfig_fields L ((key, j) # ms) c =
     (case unmarshal_RequestConfig_field L key j c of
        Inl e \<Rightarrow> Inl e
      | Inr c' \<Rightarrow> unmarshal_RequestConfig_fields L ms c')"

fun unmarshal_RequestConfig ::
  "golib \<Rightarrow> json \<Rightarrow> RequestConfig \<Rightarrow> json_error + RequestConfig" where
  "unmarshal_RequestConfig L JNull c = Inr c"
| "unmarshal_RequestConfig L (JObject ms) c = unmarshal_RequestConfig_fields L ms c"
| "unmarshal_RequestConfig L j c = Inl UnmarshalTypeError"

definition zero_RequestConfig :: RequestConfig where
  "zero_RequestConfig = \<lparr>URL = [], Method = [], Headers = [], Body = None\<rparr>"

fun unmarshal_elements ::
  "golib \<Rightarrow> json list \<Rightarrow> RequestConfig list \<Rightarrow> json_error + RequestConfig list" where
  "unmarshal_elements L [] old = Inr []"
| "unmarshal_elements L (j # js) old =
     (case unmarshal_RequestConfig L j (case old of [] \<Rightarrow> zero_RequestConfig | c # cs \<Rightarrow> c) of
        Inl e \<Rightarrow> Inl e
      | Inr c \<Rightarrow>
          (case unmarshal_elements L js (tl old) of
             Inl e \<Rightarrow> Inl e
           | Inr cs \<Rightarrow> Inr (c # cs)))"

fun unmarshal_slice ::
  "golib \<Rightarrow> json \<Rightarrow> RequestConfig list \<Rightarrow> json_error + RequestConfig list" where
  "unmarshal_slice L JNull old = Inr []"
| "unmarshal_slice L (JArray js) old = unmarshal_elements L js old"
| "unmarshal_slice L j old = Inl UnmarshalTypeError"

text \<open>One member of the top-level object; the field tag is that of line 26.\<close>

definition unmarshal_Config_field ::
  "golib \<Rightarrow> string \<Rightarrow> json \<Rightarrow> Config \<Rightarrow> json_error + Config" where
  "unmarshal_Config_field L key j c =
     (if key_matches L key ''requests'' then
        (case unmarshal_slice L j (Requests c) of
           Inl e \<Rightarrow> Inl e
         | Inr rs \<Rightarrow> Inr (c\<lparr>Requests := rs\<rparr>))
      else Inr c)"

fun unmarshal_Config_fields ::
  "golib \<Rightarrow> (string \<times> json) list \<Rightarrow> Config \<Rightarrow> json_error + Config" where
  "unmarshal_Config_fields L [] c = Inr c"
| "unmarshal_Config_fields L ((key, j) # ms) c =
     (case unmarshal_Config_field L key j c of
        Inl e \<Rightarrow> Inl e
      | Inr c' \<Rightarrow> unmarshal_Config_fields L ms c')"

fun unmarshal_Config :: "golib \<Rightarrow> json \<Rightarrow> Config \<Rightarrow> json_error + Config" where
  "unmarshal_Config L JNull c = Inr c"
| "unmarshal_Config L (JObject ms) c = unmarshal_Config_fields L ms c"
| "unmarshal_Config L j c = Inl UnmarshalTypeError"

definition loadConfigFromBody :: "golib \<Rightarrow> string \<Rightarrow> json_error + Config" where
  "loadConfigFromBody L body =
     (case json_syntax L body of
        None \<Rightarrow> Inl SyntaxError
      | Some j \<Rightarrow> unmarshal_Config L j \<lparr>Requests = []\<rparr>)"

section \<open>handleAPIRequest up to the dispatch (dispatcher.go, lines 75-91)\<close>

text \<open>
  The inbound request: its method, and what \<^verbatim>\<open>ioutil.ReadAll(r.Body)\<close> will give.
\<close>

record inbound =
  in_Method :: string
  in_Body :: "string + string"

text \<open>
  What the handler does, in order: \<^verbatim>\<open>http.Error(w, message, code)\<close>, reading the
  body, decoding it, and entering lines 93-109 with the decoded batch.
\<close>

datatype handler_event =
    HttpError string nat
  | ReadBody
  | LoadConfig string
  | Dispatch "RequestConfig list"

definition handleAPIRequest :: "golib \<Rightarrow> inbound \<Rightarrow> handler_event list" where
  "handleAPIRequest L r =
     (if in_Method r \<noteq> ''POST'' then [HttpError ''Only POST method is supported'' 405]
      else
        ReadBody #
        (case in_Body r of
           Inl err \<Rightarrow> [HttpError ''Failed to read request body'' 400]
         | Inr body \<Rightarrow>
             LoadConfig body #
             (case loadConfigFromBody L body of
                Inl err \<Rightarrow> [HttpError ''Failed to parse request body'' 400]
              | Inr config \<Rightarrow> [Dispatch (Requests config)])))"

section \<open>The dispatch (dispatcher.go, lines 93-109 and 169-184)\<close>

text \<open>
  The goroutines of one dispatch as a transition system. The main goroutine is at
  one of: the head of the loop before descriptor \<open>k\<close> (line 102), the go statement
  for descriptor \<open>k\<close> (line 104, after \<^verbatim>\<open>wg.Add(1)\<close>), \<^verbatim>\<open>wg.Wait()\<close>, \<^verbatim>\<open>close(results)\<close>,
  or it has returned. The consumer (lines 96-100) is blocked receiving, holds a line
  it has received and not yet written, or has left its loop.
\<close>

datatype main_pc = LoopHead nat | GoStmt nat | WgWait | CloseChan | Returned

datatype consumer = Receiving | Printing string | Exited

text \<open>
  \<open>workers\<close> holds, for each goroutine started so far, the events it has still to
  perform; goroutine \<open>i\<close> executes descriptor \<open>i\<close>. \<open>delivered\<close> is the history of the
  channel: every value received from it, with the goroutine that sent it.
  \<open>printed\<close> is what the consumer has written to its sink.
\<close>

record dispatch_state =
  batch :: "RequestConfig list"
  pc :: main_pc
  wg :: nat
  workers :: "event list list"
  consumer :: consumer
  delivered :: "(nat \<times> string) list"
  printed :: "string list"
  closed :: bool

definition init :: "RequestConfig list \<Rightarrow> dispatch_state" where
  "init cs = \<lparr>batch = cs, pc = LoopHead 0, wg = 0, workers = [], consumer = Receiving,
             delivered = [], printed = [], closed = False\<rparr>"

definition is_local :: "event \<Rightarrow> bool" where
  "is_local e = (case e of ChanSend m \<Rightarrow> False | WgDone \<Rightarrow> False | _ \<Rightarrow> True)"

text \<open>
  One step of one goroutine. The channel is unbuffered: a send happens together
  with the consumer's receive. A send on a closed channel and a \<^verbatim>\<open>wg.Done()\<close> on
  a zero counter panic in Go; here they are not steps, and that no goroutine ever
  waits at one of them is part of what is proved. \<open>N k\<close> is the network as execution
  \<open>k\<close> meets it.
\<close>

inductive step :: "golib \<Rightarrow> (nat \<Rightarrow> round_trip) \<Rightarrow> dispatch_state \<Rightarrow> dispatch_state \<Rightarrow> bool"
  for L :: golib and N :: "nat \<Rightarrow> round_trip" where
  wg_add:
    "pc s = LoopHead k \<Longrightarrow> k < length (batch s) \<Longrightarrow>
     step L N s (s\<lparr>wg := wg s + 1, pc := GoStmt k\<rparr>)"
| go_sendRequest:
    "pc s = GoStmt k \<Longrightarrow>
     step L N s (s\<lparr>workers := workers s @ [sendRequest L (N k) (batch s ! k)],
                   pc := LoopHead (Suc k)\<rparr>)"
| loop_exit:
    "pc s = LoopHead k \<Longrightarrow> \<not> k < length (batch s) \<Longrightarrow>
     step L N s (s\<lparr>pc := WgWait\<rparr>)"
| wg_wait:
    "pc s = WgWait \<Longrightarrow> wg s = 0 \<Longrightarrow>
     step L N s (s\<lparr>pc := CloseChan\<rparr>)"
| close_chan:
    "pc s = CloseChan \<Longrightarrow>
     step L N s (s\<lparr>closed := True, pc := Returned\<rparr>)"
| worker_local:
    "i < length (workers s) \<Longrightarrow> workers s ! i = e # es \<Longrightarrow> is_local e \<Longrightarrow>
     step L N s (s\<lparr>workers := (workers s)[i := es]\<rparr>)"
| chan_send:
    "i < length (workers s) \<Longrightarrow> workers s ! i = ChanSend m # es \<Longrightarrow>
     consumer s = Receiving \<Longrightarrow> \<not> closed s \<Longrightarrow>
     step L N s (s\<lparr>workers := (workers s)[i := es], consumer := Printing m,
                   delivered := delivered s @ [(i, m)]\<rparr>)"
| wg_done:
    "i < length (workers s) \<Longrightarrow> workers s ! i = WgDone # es \<Longrightarrow> 0 < wg s \<Longrightarrow>
     step L N s (s\<lparr>workers := (workers s)[i := es], wg := wg s - 1\<rparr>)"
| consumer_print:
    "consumer s = Printing m \<Longrightarrow>
     step L N s (s\<lparr>printed := printed s @ [m], consumer := Receiving\<rparr>)"
| consumer_exit:
    "consumer s = Receiving \<Longrightarrow> closed s \<Longrightarrow>
     step L N s (s\<lparr>consumer := Exited\<rparr>)"

text \<open>The outcomes of a batch: for each descriptor, in order, the lines it sends.\<close>

definition outcomes :: "golib \<Rightarrow> (nat \<Rightarrow> round_trip) \<Rightarrow> RequestConfig list \<Rightarrow> (nat \<times> string) list" where
  "outcomes L N cs =
     concat (map (\<lambda>i. map (Pair i) (sent_lines (sendRequest L (N i) (cs ! i)))) [0..<length cs])"

text \<open>
  A bound on the number of steps a dispatch can still take: those of the main
  goroutine, those of the consumer, and two for every event a started or unstarted
  execution of sendRequest has still to perform (a send also makes the consumer
  write a line).
\<close>

fun main_steps :: "nat \<Rightarrow> main_pc \<Rightarrow> nat" where
  "main_steps n (LoopHead k) = 2 * (n - k) + 3"
| "main_steps n (GoStmt k) = 2 * (n - k) + 2"
| "main_steps n WgWait = 2"
| "main_steps n CloseChan = 1"
| "main_steps n Returned = 0"

fun consumer_steps :: "consumer \<Rightarrow> nat" where
  "consumer_steps Receiving = 1"
| "consumer_steps (Printing m) = 2"
| "consumer_steps Exited = 0"

definition steps_left :: "golib \<Rightarrow> (nat \<Rightarrow> round_trip) \<Rightarrow> dispatch_state \<Rightarrow> nat" where
  "steps_left L N s =
     main_steps (length (batch s)) (pc s) + consumer_steps (consumer s) +
     2 * sum_list (map length (workers s)) +
     2 * sum_list (map (\<lambda>i. length (sendRequest L (N i) (batch s ! i)))
           [length (workers s)..<length (batch s)])"

subsection \<open>Invariants of the dispatch\<close>

text \<open>
  How many goroutines the main goroutine has started when it is at a given place,
  whether that place is within the batch, how many \<^verbatim>\<open>wg.Add(1)\<close> are not yet
  followed by their go statement, and whether \<^verbatim>\<open>wg.Wait()\<close> has returned.
\<close>

fun started :: "nat \<Rightarrow> main_pc \<Rightarrow> nat" where
  "started n (LoopHead k) = k"
| "started n (GoStmt k) = k"
| "started n WgWait = n"
| "started n CloseChan = n"
| "started n Returned = n"

fun in_loop :: "nat \<Rightarrow> main_pc \<Rightarrow> bool" where
  "in_loop n (LoopHead k) = (k \<le> n)"
| "in_loop n (GoStmt k) = (k < n)"
| "in_loop n WgWait = True"
| "in_loop n CloseChan = True"
| "in_loop n Returned = True"

fun added :: "main_pc \<Rightarrow> nat" where
  "added (GoStmt k) = 1"
| "added (LoopHead k) = 0"
| "added WgWait = 0"
| "added CloseChan = 0"
| "added Returned = 0"

fun after_wait :: "main_pc \<Rightarrow> bool" where
  "after_wait CloseChan = True"
| "after_wait Returned = True"
| "after_wait (LoopHead k) = False"
| "after_wait (GoStmt k) = False"
| "after_wait WgWait = False"

text \<open>The line the consumer has received and not yet written.\<close>

fun pending :: "consumer \<Rightarrow> string list" where
  "pending (Printing m) = [m]"
| "pending Receiving = []"
| "pending Exited = []"

text \<open>
  The main goroutine and the batch: the batch is the submitted one, and the
  goroutines started are those of the descriptors before the place of the loop.
\<close>

definition pc_ok :: "RequestConfig list \<Rightarrow> dispatch_state \<Rightarrow> bool" where
  "pc_ok cs s =
     (batch s = cs \<and> length (workers s) = started (length cs) (pc s) \<and>
      in_loop (length cs) (pc s))"

text \<open>
  The channel is closed exactly when the main goroutine has returned; the consumer
  leaves its loop only on the closed channel; the counter is zero once
  \<^verbatim>\<open>wg.Wait()\<close> has returned; the consumer has written every line it has
  received but the one it holds.
\<close>

definition ctl_ok :: "dispatch_state \<Rightarrow> bool" where
  "ctl_ok s =
     ((closed s \<longleftrightarrow> pc s = Returned) \<and> (consumer s = Exited \<longrightarrow> closed s) \<and>
      (after_wait (pc s) \<longrightarrow> wg s = 0) \<and>
      map snd (delivered s) = printed s @ pending (consumer s))"

text \<open>
  The channel has delivered, once each, the lines of exactly those goroutines that
  are past their send.
\<close>

definition delivered_ok ::
  "golib \<Rightarrow> (nat \<Rightarrow> round_trip) \<Rightarrow> RequestConfig list \<Rightarrow> dispatch_state \<Rightarrow> bool" where
  "delivered_ok L N cs s =
     ((\<forall>i m. (i, m) \<in> set (delivered s) \<longleftrightarrow>
          i < length (workers s) \<and> sent_lines (workers s ! i) = [] \<and>
          sent_lines (sendRequest L (N i) (cs ! i)) = [m]) \<and>
      distinct (map fst (delivered s)))"

subsection \<open>Running one interleaving\<close>

text \<open>
  The transition system, run: a schedule names the goroutine that takes each step.
  A turn of a goroutine that cannot move ends the run with \<open>None\<close>.
\<close>

datatype turn = Main | Worker nat | Consumer

definition main_turn :: "golib \<Rightarrow> (nat \<Rightarrow> round_trip) \<Rightarrow> dispatch_state \<Rightarrow> dispatch_state option" where
  "main_turn L N s =
     (case pc s of
        LoopHead k \<Rightarrow>
          if k < length (batch s) then Some (s\<lparr>wg := wg s + 1, pc := GoStmt k\<rparr>)
          else Some (s\<lparr>pc := WgWait\<rparr>)
      | GoStmt k \<Rightarrow>
          Some (s\<lparr>workers := workers s @ [sendRequest L (N k) (batch s ! k)],
                   pc := LoopHead (Suc k)\<rparr>)
      | WgWait \<Rightarrow> if wg s = 0 then Some (s\<lparr>pc := CloseChan\<rparr>) else None
      | CloseChan \<Rightarrow> Some (s\<lparr>closed := True, pc := Returned\<rparr>)
      | Returned \<Rightarrow> None)"

definition worker_turn :: "nat \<Rightarrow> dispatch_state \<Rightarrow> dispatch_state option" where
  "worker_turn i s =
     (if i < length (workers s) then
        (case workers s ! i of
           [] \<Rightarrow> None
         | ChanSend m # es \<Rightarrow>
             if consumer s = Receiving \<and> \<not> closed s
             then Some (s\<lparr>workers := (workers s)[i := es], consumer := Printing m,
                          delivered := delivered s @ [(i, m)]\<rparr>)
             else None
         | WgDone # es \<Rightarrow>
             if 0 < wg s then Some (s\<lparr>workers := (workers s)[i := es], wg := wg s - 1\<rparr>)
             else None
         | e # es \<Rightarrow> Some (s\<lparr>workers := (workers s)[i := es]\<rparr>))
      else None)"

definition consumer_turn :: "dispatch_state \<Rightarrow> dispatch_state option" where
  "consumer_turn s =
     (case consumer s of
        Printing m \<Rightarrow> Some (s\<lparr>printed := printed s @ [m], consumer := Receiving\<rparr>)
      | Receiving \<Rightarrow> if closed s then Some (s\<lparr>consumer := Exited\<rparr>) else None
      | Exited \<Rightarrow> None)"

fun take_turn :: "golib \<Rightarrow> (nat \<Rightarrow> round_trip) \<Rightarrow> turn \<Rightarrow> dispatch_state \<Rightarrow> dispatch_state option" where
  "take_turn L N Main s = main_turn L N s"
| "take_turn L N (Worker i) s = worker_turn i s"
| "take_turn L N Consumer s = consumer_turn s"

fun schedule :: "golib \<Rightarrow> (nat \<Rightarrow> round_trip) \<Rightarrow> turn list \<Rightarrow> dispatch_state \<Rightarrow> dispatch_state option" where
  "schedule L N [] s = Some s"
| "schedule L N (t # ts) s =
     (case take_turn L N t s of None \<Rightarrow> None | Some s' \<Rightarrow> schedule L N ts s')"

section \<open>Example inputs\<close>

definition lib0 :: golib where
  "lib0 = \<lparr>NewRequest_error = (\<lambda>method url. if url = [] then Some ''empty url'' else None),
          json_Marshal = concat \<circ> map (\<lambda>(k, v). k @ ''='' @ v @ '';''),
          json_syntax = (\<lambda>body. if body = ''{}'' then Some (JObject []) else None),
          json_foldName = id\<rparr>"

definition net0 :: round_trip where
  "net0 req =
     (if rq_URL req = ''https://example.test/ok'' then Inr (Response (Inr ''hello''))
      else Inl ''connection refused'')"

definition get_ok :: RequestConfig where
  "get_ok = \<lparr>URL = ''https://example.test/ok'', Method = ''GET'', Headers = [], Body = None\<rparr>"

definition get_down :: RequestConfig where
  "get_down = \<lparr>URL = ''https://example.test/down'', Method = ''GET'', Headers = [], Body = None\<rparr>"

definition get_nowhere :: RequestConfig where
  "get_nowhere = \<lparr>URL = [], Method = ''GET'', Headers = [(''Accept'', ''text/plain'')],
     Body = None\<rparr>"

definition post_title :: RequestConfig where
  "post_title = \<lparr>URL = ''https://example.test/posts'', Method = ''POST'',
     Headers = [(''content-type'', ''application/json'')], Body = Some [(''title'', ''foo'')]\<rparr>"


definition get_two_cases :: RequestConfig where
  "get_two_cases = \<lparr>URL = ''https://example.test/ok'', Method = ''GET'',
     Headers = [(''x'', ''1''), (''X'', ''2'')], Body = None\<rparr>"

text \<open>
  Two interleavings of a dispatch of two descriptors, with the states they end in.
  In the first one the main goroutine returns while the consumer still holds the
  last line it has received.
\<close>

definition run_ok_down :: "turn list" where
  "run_ok_down = [Main, Main, Main, Main, Main, Worker 1, Worker 1, Worker 0, Worker 0, Consumer,
           Worker 0, Worker 1, Worker 0, Worker 0, Main, Main]"

definition run_nowhere_down :: "turn list" where
  "run_nowhere_down = [Main, Main, Main, Main, Main, Worker 0, Consumer, Worker 0, Worker 1, Worker 1,
            Consumer, Worker 1, Main, Main]"

definition end_ok_down :: dispatch_state where
  "end_ok_down = \<lparr>batch = [get_ok, get_down], pc = Returned, wg = 0, workers = [[], []],
       consumer = Printing ''Response from https://example.test/ok: hello'',
       delivered =
         [(1, ''Error sending request to https://example.test/down: connection refused''),
          (0, ''Response from https://example.test/ok: hello'')],
       printed = [''Error sending request to https://example.test/down: connection refused''],
       closed = True\<rparr>"

definition end_nowhere_down :: dispatch_state where
  "end_nowhere_down = \<lparr>batch = [get_nowhere, get_down], pc = Returned, wg = 0, workers = [[], []],
       consumer = Receiving,
       delivered =
         [(0, ''Error creating request for : empty url''),
          (1, ''Error sending request to https://example.test/down: connection refused'')],
       printed =
         [''Error creating request for : empty url'',
          ''Error sending request to https://example.test/down: connection refused''],
       closed = True\<rparr>"

definition get_page :: inbound where
  "get_page = \<lparr>in_Method = ''GET'', in_Body = Inr ''{}''\<rparr>"

section \<open>Properties of sendRequest\<close>

lemma sent_lines_simps [simp]:
  "sent_lines [] = []"
  "sent_lines (ChanSend m # tr) = m # sent_lines tr"
  "sent_lines (SetHeader k v # tr) = sent_lines tr"
  "sent_lines (ClientDo q # tr) = sent_lines tr"
  "sent_lines (ReadAllBody # tr) = sent_lines tr"
  "sent_lines (BodyClose # tr) = sent_lines tr"
  "sent_lines (WgDone # tr) = sent_lines tr"
  "sent_lines (tr @ tr') = sent_lines tr @ sent_lines tr'"
  by (simp_all add: sent_lines_def)

lemma round_trips_simps [simp]:
  "round_trips [] = []"
  "round_trips (ClientDo q # tr) = q # round_trips tr"
  "round_trips (ChanSend m # tr) = round_trips tr"
  "round_trips (SetHeader k v # tr) = round_trips tr"
  "round_trips (ReadAllBody # tr) = round_trips tr"
  "round_trips (BodyClose # tr) = round_trips tr"
  "round_trips (WgDone # tr) = round_trips tr"
  "round_trips (tr @ tr') = round_trips tr @ round_trips tr'"
  by (simp_all add: round_trips_def)

lemma header_writes_simps [simp]:
  "header_writes [] = []"
  "header_writes (SetHeader k v # tr) = (k, v) # header_writes tr"
  "header_writes (ChanSend m # tr) = header_writes tr"
  "header_writes (ClientDo q # tr) = header_writes tr"
  "header_writes (ReadAllBody # tr) = header_writes tr"
  "header_writes (BodyClose # tr) = header_writes tr"
  "header_writes (WgDone # tr) = header_writes tr"
  "header_writes (tr @ tr') = header_writes tr @ header_writes tr'"
  by (simp_all add: header_writes_def)

lemma sent_lines_header_events [simp]:
  "sent_lines (map (\<lambda>(key, val). SetHeader key val) hs) = []"
  by (induction hs) auto

lemma round_trips_header_events [simp]:
  "round_trips (map (\<lambda>(key, val). SetHeader key val) hs) = []"
  by (induction hs) auto

lemma header_writes_header_events [simp]:
  "header_writes (map (\<lambda>(key, val). SetHeader key val) hs) = hs"
  by (induction hs) auto

lemma header_events_local:
  "list_all is_local (map (\<lambda>(key, val). SetHeader key val) hs)"
  by (induction hs) (auto simp: is_local_def)

lemma sent_lines_local: "list_all is_local tr \<Longrightarrow> sent_lines tr = []"
  by (induction tr) (auto simp: is_local_def split: event.splits)

lemma count_done_local: "list_all is_local tr \<Longrightarrow> count_list tr WgDone = 0"
  by (induction tr) (auto simp: is_local_def split: event.splits)

text \<open>
  Every trace of sendRequest is local events, one send, local events, and the
  deferred \<^verbatim>\<open>wg.Done()\<close> last.
\<close>

lemma sendRequest_shape:
  "\<exists>pre m post. sendRequest L Do c = pre @ ChanSend m # post @ [WgDone]
      \<and> list_all is_local pre \<and> list_all is_local post"
proof (cases "new_request L c")
  case (Inl err)
  then have "sendRequest L Do c =
      [] @ ChanSend (''Error creating request for '' @ URL c @ '': '' @ err) # [] @ [WgDone]"
    by (simp add: sendRequest_def)
  moreover have "list_all is_local []" by simp
  ultimately show ?thesis by blast
next
  case req: (Inr req)
  let ?hs = "map (\<lambda>(key, val). SetHeader key val) (Headers c)"
  let ?pre = "?hs @ [ClientDo (set_headers c req)]"
  have pre: "list_all is_local ?pre"
    by (simp add: header_events_local is_local_def)
  show ?thesis
  proof (cases "Do (set_headers c req)")
    case (Inl err)
    with req have "sendRequest L Do c = ?pre @
        ChanSend (''Error sending request to '' @ URL c @ '': '' @ err) # [] @ [WgDone]"
      by (simp add: sendRequest_def)
    moreover have "list_all is_local []" by simp
    ultimately show ?thesis using pre by blast
  next
    case resp: (Inr resp)
    have pre': "list_all is_local (?pre @ [ReadAllBody])"
      using pre by (simp add: is_local_def)
    have post: "list_all is_local [BodyClose]"
      by (simp add: is_local_def)
    show ?thesis
    proof (cases "ReadAll resp")
      case (Inl err)
      with req resp have "sendRequest L Do c = (?pre @ [ReadAllBody]) @
          ChanSend (''Error reading response from '' @ URL c @ '': '' @ err) #
          [BodyClose] @ [WgDone]"
        by (simp add: sendRequest_def)
      then show ?thesis using pre' post by blast
    next
      case (Inr body)
      with req resp have "sendRequest L Do c = (?pre @ [ReadAllBody]) @
          ChanSend (''Response from '' @ URL c @ '': '' @ body) # [BodyClose] @ [WgDone]"
        by (simp add: sendRequest_def)
      then show ?thesis using pre' post by blast
    qed
  qed
qed

text \<open>
  C2. For every descriptor, whatever the library calls return, sendRequest ends
  having sent exactly one line to the channel: the line of a success or of one of
  the three failures. An error of construction, of transmission or of reading the
  response is a value that becomes that line; none leaves the function. The
  function signals \<^verbatim>\<open>wg.Done()\<close> once, as its last act. (The library calls are taken
  to return: the client of line 38 sets no timeout of its own.)
\<close>

theorem sendRequest_one_outcome:
  "\<exists>line pre msg. sent_lines (sendRequest L Do c) = [line]
     \<and> sendRequest L Do c = pre @ [WgDone] \<and> WgDone \<notin> set pre
     \<and> (line = ''Response from '' @ URL c @ '': '' @ msg
        \<or> line = ''Error creating request for '' @ URL c @ '': '' @ msg
        \<or> line = ''Error sending request to '' @ URL c @ '': '' @ msg
        \<or> line = ''Error reading response from '' @ URL c @ '': '' @ msg)"
proof -
  obtain pre m post where tr: "sendRequest L Do c = pre @ ChanSend m # post @ [WgDone]"
    and pre: "list_all is_local pre" and post: "list_all is_local post"
    using sendRequest_shape by blast
  have one: "sent_lines (sendRequest L Do c) = [m]"
    using pre post by (simp add: tr sent_lines_local)
  have last: "sendRequest L Do c = (pre @ ChanSend m # post) @ [WgDone]"
    by (simp add: tr)
  have once: "WgDone \<notin> set (pre @ ChanSend m # post)"
    using pre post by (auto simp: list_all_iff is_local_def)
  have form: "\<exists>msg. m = ''Response from '' @ URL c @ '': '' @ msg
        \<or> m = ''Error creating request for '' @ URL c @ '': '' @ msg
        \<or> m = ''Error sending request to '' @ URL c @ '': '' @ msg
        \<or> m = ''Error reading response from '' @ URL c @ '': '' @ msg"
  proof (cases "new_request L c")
    case (Inl err)
    then have "sent_lines (sendRequest L Do c)
        = [''Error creating request for '' @ URL c @ '': '' @ err]"
      by (simp add: sendRequest_def)
    then have "m = ''Error creating request for '' @ URL c @ '': '' @ err"
      by (simp only: one list.inject)
    then show ?thesis by blast
  next
    case req: (Inr req)
    show ?thesis
    proof (cases "Do (set_headers c req)")
      case (Inl err)
      with req have "sent_lines (sendRequest L Do c)
          = [''Error sending request to '' @ URL c @ '': '' @ err]"
        by (simp add: sendRequest_def)
      then have "m = ''Error sending request to '' @ URL c @ '': '' @ err"
        by (simp only: one list.inject)
      then show ?thesis by blast
    next
      case resp: (Inr resp)
      show ?thesis
      proof (cases "ReadAll resp")
        case (Inl err)
        with req resp have "sent_lines (sendRequest L Do c)
            = [''Error reading response from '' @ URL c @ '': '' @ err]"
          by (simp add: sendRequest_def)
        then have "m = ''Error reading response from '' @ URL c @ '': '' @ err"
          by (simp only: one list.inject)
        then show ?thesis by blast
      next
        case (Inr body)
        with req resp have "sent_lines (sendRequest L Do c)
            = [''Response from '' @ URL c @ '': '' @ body]"
          by (simp add: sendRequest_def)
        then have "m = ''Response from '' @ URL c @ '': '' @ body"
          by (simp only: one list.inject)
        then show ?thesis by blast
      qed
    qed
  qed
  from form obtain msg where "m = ''Response from '' @ URL c @ '': '' @ msg
        \<or> m = ''Error creating request for '' @ URL c @ '': '' @ msg
        \<or> m = ''Error sending request to '' @ URL c @ '': '' @ msg
        \<or> m = ''Error reading response from '' @ URL c @ '': '' @ msg" ..
  with one last once show ?thesis by (intro exI conjI)
qed

theorem sendRequest_one_outcome_witness:
  "sent_lines (sendRequest lib0 net0 get_down)
     = [''Error sending request to https://example.test/down: connection refused'']
   \<and> last (sendRequest lib0 net0 get_down) = WgDone"
proof -
  have "sendRequest lib0 net0 get_down =
      [ClientDo \<lparr>rq_Method = ''GET'', rq_URL = ''https://example.test/down'',
                  rq_Header = Map.empty, rq_Body = None\<rparr>,
       ChanSend ''Error sending request to https://example.test/down: connection refused'',
       WgDone]"
    by (simp add: sendRequest_def new_request_def http_NewRequest_def set_headers_def
        lib0_def net0_def get_down_def)
  then show ?thesis
    using sendRequest_one_outcome [of lib0 net0 get_down] by simp
qed

text \<open>
  C3, as amended. The line of a success is \<open>Response from {target}: {body}\<close>. The line
  of a failure is \<open>Error creating request for {target}: {message}\<close> when the request
  cannot be built, \<open>Error sending request to {target}: {message}\<close> when the round trip
  fails, and \<open>Error reading response from {target}: {message}\<close> when the body cannot
  be read.
\<close>

theorem outcome_line_format:
  "(\<forall>err. new_request L c = Inl err \<longrightarrow>
      sent_lines (sendRequest L Do c) = [''Error creating request for '' @ URL c @ '': '' @ err]) \<and>
   (\<forall>req err. new_request L c = Inr req \<and> Do (set_headers c req) = Inl err \<longrightarrow>
      sent_lines (sendRequest L Do c) = [''Error sending request to '' @ URL c @ '': '' @ err]) \<and>
   (\<forall>req resp err. new_request L c = Inr req \<and> Do (set_headers c req) = Inr resp \<and>
        ReadAll resp = Inl err \<longrightarrow>
      sent_lines (sendRequest L Do c) =
        [''Error reading response from '' @ URL c @ '': '' @ err]) \<and>
   (\<forall>req resp body. new_request L c = Inr req \<and> Do (set_headers c req) = Inr resp \<and>
        ReadAll resp = Inr body \<longrightarrow>
      sent_lines (sendRequest L Do c) = [''Response from '' @ URL c @ '': '' @ body])"
  by (simp add: sendRequest_def)

theorem outcome_line_format_witness:
  "sent_lines (sendRequest lib0 net0 get_ok) = [''Response from https://example.test/ok: hello'']
   \<and> sent_lines (sendRequest lib0 net0 get_nowhere) = [''Error creating request for : empty url'']"
  using outcome_line_format [of lib0 get_ok net0] outcome_line_format [of lib0 get_nowhere net0]
  by (simp add: sendRequest_def new_request_def http_NewRequest_def set_headers_def
      lib0_def net0_def get_ok_def get_nowhere_def)

text \<open>
  The claim as stated fails: a refused connection is reported as
  \<open>Error sending request to ...\<close>, not as \<open>Error transmission for ...\<close>.
\<close>

theorem failure_line_counterexample:
  "sent_lines (sendRequest lib0 net0 get_down)
     = [''Error sending request to https://example.test/down: connection refused'']
   \<and> sent_lines (sendRequest lib0 net0 get_down)
     \<noteq> [''Error transmission for https://example.test/down: connection refused'']"
  by (simp add: sendRequest_def new_request_def http_NewRequest_def set_headers_def
      lib0_def net0_def get_down_def)




text \<open>
  C6. When the request cannot be built, sendRequest sends the line of that failure
  and signals \<^verbatim>\<open>wg.Done()\<close>, and does nothing else: it sets no header and makes no
  round trip. When the request is built, it makes exactly one round trip, with the
  request as the header loop left it.
\<close>

theorem construction_failure_no_round_trip:
  "(\<forall>err. new_request L c = Inl err \<longrightarrow>
      sendRequest L Do c =
        [ChanSend (''Error creating request for '' @ URL c @ '': '' @ err), WgDone] \<and>
      round_trips (sendRequest L Do c) = [] \<and> header_writes (sendRequest L Do c) = []) \<and>
   (\<forall>req. new_request L c = Inr req \<longrightarrow>
      round_trips (sendRequest L Do c) = [set_headers c req])"
  by (auto simp: sendRequest_def split: sum.splits)

theorem construction_failure_no_round_trip_witness:
  "sendRequest lib0 net0 get_nowhere
     = [ChanSend ''Error creating request for : empty url'', WgDone]
   \<and> length (round_trips (sendRequest lib0 net0 get_ok)) = 1"
  using construction_failure_no_round_trip [of lib0 get_nowhere net0]
    construction_failure_no_round_trip [of lib0 get_ok net0]
  by (simp add: sendRequest_def new_request_def http_NewRequest_def set_headers_def
      lib0_def net0_def get_ok_def get_nowhere_def)

subsection \<open>The header loop\<close>

lemma fold_Header_Set:
  "rq_Header (fold (\<lambda>(key, val). Header_Set key val) hs req) name =
     (case map_of (rev (map (\<lambda>(k, v). (CanonicalMIMEHeaderKey k, v)) hs)) name of
        Some v \<Rightarrow> Some [v]
      | None \<Rightarrow> rq_Header req name)"
proof (induction hs arbitrary: req)
  case Nil
  then show ?case by simp
next
  case (Cons h hs)
  obtain k v where h: "h = (k, v)" by (cases h)
  have "rq_Header (fold (\<lambda>(key, val). Header_Set key val) (h # hs) req) name =
        rq_Header (fold (\<lambda>(key, val). Header_Set key val) hs (Header_Set k v req)) name"
    by (simp add: h)
  also have "\<dots> =
      (case map_of (rev (map (\<lambda>(k, v). (CanonicalMIMEHeaderKey k, v)) hs)) name of
        Some v \<Rightarrow> Some [v]
      | None \<Rightarrow> rq_Header (Header_Set k v req) name)"
    by (rule Cons.IH)
  also have "\<dots> =
      (case map_of (rev (map (\<lambda>(k, v). (CanonicalMIMEHeaderKey k, v)) (h # hs))) name of
        Some v \<Rightarrow> Some [v]
      | None \<Rightarrow> rq_Header req name)"
    by (simp add: h Header_Set_def map_add_def split: option.splits)
  finally show ?case .
qed

lemma new_request_Header: "new_request L c = Inr req \<Longrightarrow> rq_Header req = Map.empty"
  by (auto simp: new_request_def http_NewRequest_def split: if_splits option.splits)

lemma map_of_unique_value:
  "(a, b) \<in> set ps \<Longrightarrow> (\<forall>b'. (a, b') \<in> set ps \<longrightarrow> b' = b) \<Longrightarrow> map_of ps a = Some b"
  by (metis map_of_SomeD weak_map_of_SomeI)

lemma canon_examples:
  "CanonicalMIMEHeaderKey ''x'' = ''X''" "CanonicalMIMEHeaderKey ''X'' = ''X''"
  "CanonicalMIMEHeaderKey ''content-type'' = ''Content-Type''"
  by code_simp+

text \<open>
  C7, as amended. After the request is built, every entry of the descriptor's
  header mapping is applied to it and the request so made is the one transmitted.
  Header names are stored in canonical form: for each canonical name the value
  applied last wins, and for every key of the mapping that no entry with another
  value shares its canonical name with, the transmitted request carries the
  mapped value under that name.
\<close>

theorem headers_last_write_wins:
  assumes "new_request L c = Inr req"
  shows "header_writes (sendRequest L Do c) = Headers c
     \<and> round_trips (sendRequest L Do c) = [set_headers c req]
     \<and> (\<forall>name. rq_Header (set_headers c req) name =
          map_option (\<lambda>v. [v])
            (map_of (rev (map (\<lambda>(k, v). (CanonicalMIMEHeaderKey k, v)) (Headers c))) name))
     \<and> (\<forall>k v. (k, v) \<in> set (Headers c) \<and>
          (\<forall>k' v'. (k', v') \<in> set (Headers c) \<and>
             CanonicalMIMEHeaderKey k' = CanonicalMIMEHeaderKey k \<longrightarrow> v' = v) \<longrightarrow>
          rq_Header (set_headers c req) (CanonicalMIMEHeaderKey k) = Some [v])"
proof (intro conjI allI impI)
  let ?ps = "rev (map (\<lambda>(k, v). (CanonicalMIMEHeaderKey k, v)) (Headers c))"
  have hdr: "rq_Header (set_headers c req) name = map_option (\<lambda>v. [v]) (map_of ?ps name)"
    for name
    using new_request_Header [OF assms]
    by (simp add: set_headers_def fold_Header_Set split: option.splits)
  show "header_writes (sendRequest L Do c) = Headers c"
    using assms by (simp add: sendRequest_def split: sum.splits)
  show "round_trips (sendRequest L Do c) = [set_headers c req]"
    using assms by (simp add: sendRequest_def split: sum.splits)
  show "rq_Header (set_headers c req) name = map_option (\<lambda>v. [v]) (map_of ?ps name)" for name
    by (rule hdr)
  show "rq_Header (set_headers c req) (CanonicalMIMEHeaderKey k) = Some [v]"
    if h: "(k, v) \<in> set (Headers c) \<and>
          (\<forall>k' v'. (k', v') \<in> set (Headers c) \<and>
             CanonicalMIMEHeaderKey k' = CanonicalMIMEHeaderKey k \<longrightarrow> v' = v)" for k v
  proof -
    have "(CanonicalMIMEHeaderKey k, v) \<in> set ?ps"
      using h by (auto simp: image_iff intro!: bexI [of _ "(k, v)"])
    moreover have "(CanonicalMIMEHeaderKey k, v') \<in> set ?ps \<Longrightarrow> v' = v" for v'
      using h by (auto simp: image_iff)
    ultimately have "map_of ?ps (CanonicalMIMEHeaderKey k) = Some v"
      by (intro map_of_unique_value) blast+
    then show ?thesis by (simp add: hdr)
  qed
qed

theorem headers_last_write_wins_witness:
  "header_writes (sendRequest lib0 net0 post_title) = [(''content-type'', ''application/json'')]
   \<and> map (\<lambda>q. rq_Header q ''Content-Type'') (round_trips (sendRequest lib0 net0 post_title))
       = [Some [''application/json'']]"
proof -
  let ?r = "\<lparr>rq_Method = ''POST'', rq_URL = ''https://example.test/posts'',
             rq_Header = Map.empty, rq_Body = Some ''title=foo;''\<rparr>"
  have n: "new_request lib0 post_title = Inr ?r"
    by (simp add: new_request_def http_NewRequest_def lib0_def post_title_def)
  note t = headers_last_write_wins [OF n, of net0]
  have h: "Headers post_title = [(''content-type'', ''application/json'')]"
    by (simp add: post_title_def)
  have "rq_Header (set_headers post_title ?r) (CanonicalMIMEHeaderKey ''content-type'')
      = Some [''application/json'']"
    using t [THEN conjunct2, THEN conjunct2, THEN conjunct2, rule_format,
        of "''content-type''" "''application/json''"]
    by (simp add: h)
  then show ?thesis
    using t [THEN conjunct1] t [THEN conjunct2, THEN conjunct1]
    by (simp add: h canon_examples)
qed

text \<open>
  The claim as stated fails when two keys of the mapping differ only in case: both
  are stored under one canonical name, and the request carries the value of one of
  them only. Here the request carries \<open>X: 2\<close> and nothing for the entry \<open>x = 1\<close>.
\<close>

theorem header_case_counterexample:
  "Headers get_two_cases = [(''x'', ''1''), (''X'', ''2'')]
   \<and> CanonicalMIMEHeaderKey ''x'' = ''X''
   \<and> map (\<lambda>q. (rq_Header q ''x'', rq_Header q ''X''))
         (round_trips (sendRequest lib0 net0 get_two_cases))
       = [(None, Some [''2''])]"
proof -
  let ?r = "\<lparr>rq_Method = ''GET'', rq_URL = ''https://example.test/ok'',
             rq_Header = Map.empty, rq_Body = None\<rparr>"
  have n: "new_request lib0 get_two_cases = Inr ?r"
    by (simp add: new_request_def http_NewRequest_def lib0_def get_two_cases_def)
  have h: "Headers get_two_cases = [(''x'', ''1''), (''X'', ''2'')]"
    by (simp add: get_two_cases_def)
  have "round_trips (sendRequest lib0 net0 get_two_cases) = [set_headers get_two_cases ?r]"
    by (simp add: sendRequest_def n split: sum.splits)
  moreover have "rq_Header (set_headers get_two_cases ?r) ''x'' = None"
    by (simp add: set_headers_def h Header_Set_def canon_examples)
  moreover have "rq_Header (set_headers get_two_cases ?r) ''X'' = Some [''2'']"
    by (simp add: set_headers_def h Header_Set_def canon_examples)
  ultimately show ?thesis by (simp add: h canon_examples)
qed

section \<open>Properties of the dispatch\<close>

subsection \<open>Invariants\<close>

lemma pc_ok_init: "pc_ok cs (init cs)"
  by (simp add: pc_ok_def init_def)

lemma pc_ok_step: "step L N s s' \<Longrightarrow> pc_ok cs s \<Longrightarrow> pc_ok cs s'"
  by (induction rule: step.induct) (simp_all add: pc_ok_def)

lemma reach_induct [consumes 1, case_names init step]:
  assumes "(step L N)\<^sup>*\<^sup>* (init cs) s"
    and "P (init cs)"
    and "\<And>s s'. (step L N)\<^sup>*\<^sup>* (init cs) s \<Longrightarrow> P s \<Longrightarrow> step L N s s' \<Longrightarrow> P s'"
  shows "P s"
  using assms(1)
proof (induction rule: rtranclp_induct)
  case base
  show ?case by (rule assms(2))
next
  case (step y z)
  show ?case by (rule assms(3) [OF step(1) step(3) step(2)])
qed

lemma pc_ok_reach: "(step L N)\<^sup>*\<^sup>* (init cs) s \<Longrightarrow> pc_ok cs s"
proof (induction rule: reach_induct)
  case init
  show ?case by (rule pc_ok_init)
next
  case (step s s')
  from step show ?case by (metis pc_ok_step)
qed

lemma ctl_ok_init: "ctl_ok (init cs)"
  by (simp add: ctl_ok_def init_def)

lemma ctl_ok_step: "step L N s s' \<Longrightarrow> ctl_ok s \<Longrightarrow> ctl_ok s'"
  by (induction rule: step.induct) (auto simp: ctl_ok_def)

lemma ctl_ok_reach: "(step L N)\<^sup>*\<^sup>* (init cs) s \<Longrightarrow> ctl_ok s"
proof (induction rule: reach_induct)
  case init
  show ?case by (rule ctl_ok_init)
next
  case (step s s')
  from step show ?case by (metis ctl_ok_step)
qed


lemma suffix_update:
  assumes "\<forall>j<length ws. \<exists>pre. F j = pre @ ws ! j" and "i < length ws" and "ws ! i = e # es"
  shows "\<forall>j<length (ws[i := es]). \<exists>pre. F j = pre @ ws[i := es] ! j"
proof (intro allI impI)
  fix j assume "j < length (ws[i := es])"
  then have j: "j < length ws" by simp
  with assms(1) obtain pre where pre: "F j = pre @ ws ! j" by blast
  show "\<exists>pre. F j = pre @ ws[i := es] ! j"
  proof (cases "j = i")
    case True
    with pre assms(3) have "F j = (pre @ [e]) @ es" by simp
    moreover have "ws[i := es] ! j = es" using True j by simp
    ultimately show ?thesis by metis
  next
    case False
    with pre show ?thesis by auto
  qed
qed

lemma suffix_snoc:
  assumes "\<forall>j<length ws. \<exists>pre. F j = pre @ ws ! j" and "F (length ws) = x"
  shows "\<forall>j<length (ws @ [x]). \<exists>pre. F j = pre @ (ws @ [x]) ! j"
proof (intro allI impI)
  fix j assume "j < length (ws @ [x])"
  then consider "j < length ws" | "j = length ws" by fastforce
  then show "\<exists>pre. F j = pre @ (ws @ [x]) ! j"
  proof cases
    case 1
    with assms(1) show ?thesis by (simp add: nth_append)
  next
    case 2
    with assms(2) have "F j = [] @ (ws @ [x]) ! j" by simp
    then show ?thesis by blast
  qed
qed

lemma rest_step:
  assumes "step L N s s'" and "pc_ok cs s"
    and "\<forall>i<length (workers s). \<exists>pre. sendRequest L (N i) (cs ! i) = pre @ workers s ! i"
  shows "\<forall>i<length (workers s'). \<exists>pre. sendRequest L (N i) (cs ! i) = pre @ workers s' ! i"
  using assms
proof (induction rule: step.induct)
  case (go_sendRequest s k)
  then have k: "length (workers s) = k" "batch s = cs"
    by (simp_all add: pc_ok_def)
  then have "sendRequest L (N (length (workers s))) (cs ! length (workers s))
      = sendRequest L (N k) (batch s ! k)" by simp
  with go_sendRequest.prems(2) show ?case
    using suffix_snoc [of "workers s" "\<lambda>i. sendRequest L (N i) (cs ! i)"] by simp
next
  case (worker_local i s e es)
  then show ?case
    using suffix_update [of "workers s" "\<lambda>i. sendRequest L (N i) (cs ! i)" i e es] by simp
next
  case (chan_send i s m es)
  then show ?case
    using suffix_update [of "workers s" "\<lambda>i. sendRequest L (N i) (cs ! i)" i "ChanSend m" es]
    by simp
next
  case (wg_done i s es)
  then show ?case
    using suffix_update [of "workers s" "\<lambda>i. sendRequest L (N i) (cs ! i)" i WgDone es] by simp
qed simp_all

lemma rest_reach:
  assumes "(step L N)\<^sup>*\<^sup>* (init cs) s"
  shows "\<forall>i<length (workers s). \<exists>pre. sendRequest L (N i) (cs ! i) = pre @ workers s ! i"
  using assms
proof (induction rule: reach_induct)
  case init
  show ?case by (simp add: init_def)
next
  case (step s s')
  from step.hyps(2) pc_ok_reach [OF step.hyps(1)] step.IH show ?case by (rule rest_step)
qed


lemma sum_list_map_update:
  fixes f :: "'a \<Rightarrow> nat"
  shows "i < length xs \<Longrightarrow> sum_list (map f (xs[i := y])) + f (xs ! i) = sum_list (map f xs) + f y"
proof (induction xs arbitrary: i)
  case Nil
  then show ?case by simp
next
  case (Cons x xs)
  then show ?case by (cases i) auto
qed

lemma sendRequest_count_done: "count_list (sendRequest L Do c) WgDone = 1"
proof -
  obtain pre m post where tr: "sendRequest L Do c = pre @ ChanSend m # post @ [WgDone]"
    and pre: "list_all is_local pre" and post: "list_all is_local post"
    using sendRequest_shape by blast
  show ?thesis
    using pre post by (simp add: tr count_done_local)
qed

lemma sendRequest_sent_one: "\<exists>m. sent_lines (sendRequest L Do c) = [m]"
proof -
  obtain pre m post where tr: "sendRequest L Do c = pre @ ChanSend m # post @ [WgDone]"
    and pre: "list_all is_local pre" and post: "list_all is_local post"
    using sendRequest_shape by blast
  have "sent_lines (sendRequest L Do c) = [m]"
    using pre post by (simp add: tr sent_lines_local)
  then show ?thesis ..
qed

lemma sendRequest_last_done: "sendRequest L Do c = pre @ e # es \<Longrightarrow> WgDone \<in> set (e # es)"
proof -
  assume a: "sendRequest L Do c = pre @ e # es"
  obtain pre' m post where tr: "sendRequest L Do c = pre' @ ChanSend m # post @ [WgDone]"
    using sendRequest_shape by blast
  have "last (sendRequest L Do c) = WgDone" by (simp add: tr)
  with a have "last (e # es) = WgDone" by simp
  then show ?thesis by (metis last_in_set list.distinct(1))
qed

lemma wg_step:
  assumes "step L N s s'"
    and "wg s = sum_list (map (\<lambda>tr. count_list tr WgDone) (workers s)) + added (pc s)"
  shows "wg s' = sum_list (map (\<lambda>tr. count_list tr WgDone) (workers s')) + added (pc s')"
  using assms
proof (induction rule: step.induct)
  case (go_sendRequest s k)
  then show ?case by (simp add: sendRequest_count_done)
next
  case (worker_local i s e es)
  then have "e \<noteq> WgDone" by (auto simp: is_local_def)
  with worker_local show ?case
    using sum_list_map_update [of i "workers s" "\<lambda>tr. count_list tr WgDone" es]
    by simp
next
  case (chan_send i s m es)
  then show ?case
    using sum_list_map_update [of i "workers s" "\<lambda>tr. count_list tr WgDone" es]
    by simp
next
  case (wg_done i s es)
  then show ?case
    using sum_list_map_update [of i "workers s" "\<lambda>tr. count_list tr WgDone" es]
    by simp
qed simp_all

lemma wg_reach:
  assumes "(step L N)\<^sup>*\<^sup>* (init cs) s"
  shows "wg s = sum_list (map (\<lambda>tr. count_list tr WgDone) (workers s)) + added (pc s)"
  using assms
proof (induction rule: reach_induct)
  case init
  show ?case by (simp add: init_def)
next
  case (step s s')
  from step.hyps(2) step.IH show ?case by (rule wg_step)
qed


lemma sent_lines_is_local: "is_local e \<Longrightarrow> sent_lines (e # es) = sent_lines es"
  by (cases e) (simp_all add: is_local_def)

lemma send_position:
  assumes "sendRequest L Do c = pre @ ChanSend m # es"
  shows "sent_lines (sendRequest L Do c) = [m] \<and> sent_lines es = []"
proof -
  obtain m0 where m0: "sent_lines (sendRequest L Do c) = [m0]"
    using sendRequest_sent_one by blast
  then have "sent_lines pre @ m # sent_lines es = [m0]"
    by (simp add: assms)
  then have "m = m0 \<and> sent_lines es = []"
    by (auto simp: append_eq_Cons_conv)
  with m0 show ?thesis by simp
qed

lemma delivered_ok_same:
  assumes "delivered_ok L N cs s" and "delivered s' = delivered s"
    and "length (workers s') = length (workers s)"
    and "\<And>j. j < length (workers s) \<Longrightarrow> sent_lines (workers s' ! j) = sent_lines (workers s ! j)"
  shows "delivered_ok L N cs s'"
  using assms unfolding delivered_ok_def by auto

lemma delivered_step:
  assumes "step L N s s'" and "pc_ok cs s"
    and "\<forall>i<length (workers s). \<exists>pre. sendRequest L (N i) (cs ! i) = pre @ workers s ! i"
    and "delivered_ok L N cs s"
  shows "delivered_ok L N cs s'"
  using assms
proof (induction rule: step.induct)
  case (wg_add s k)
  show ?case by (rule delivered_ok_same [OF wg_add.prems(3)]) simp_all
next
  case (go_sendRequest s k)
  then have k: "length (workers s) = k" "batch s = cs"
    by (simp_all add: pc_ok_def)
  obtain m0 where m0: "sent_lines (sendRequest L (N k) (cs ! k)) = [m0]"
    using sendRequest_sent_one by blast
  let ?s' = "s\<lparr>workers := workers s @ [sendRequest L (N k) (batch s ! k)], pc := LoopHead (Suc k)\<rparr>"
  have "(i, m) \<in> set (delivered ?s') \<longleftrightarrow>
          i < length (workers ?s') \<and> sent_lines (workers ?s' ! i) = [] \<and>
          sent_lines (sendRequest L (N i) (cs ! i)) = [m]" for i m
  proof (cases "i < k")
    case True
    with go_sendRequest.prems(3) k show ?thesis
      by (simp add: delivered_ok_def nth_append)
  next
    case False
    with go_sendRequest.prems(3) k have "(i, m) \<notin> set (delivered s)"
      by (simp add: delivered_ok_def)
    with False k m0 show ?thesis
      by (cases "i = k") (simp_all add: nth_append)
  qed
  moreover have "distinct (map fst (delivered ?s'))"
    using go_sendRequest.prems(3) by (simp add: delivered_ok_def)
  ultimately show ?case unfolding delivered_ok_def by blast
next
  case (loop_exit s k)
  show ?case by (rule delivered_ok_same [OF loop_exit.prems(3)]) simp_all
next
  case (wg_wait s)
  show ?case by (rule delivered_ok_same [OF wg_wait.prems(3)]) simp_all
next
  case (close_chan s)
  show ?case by (rule delivered_ok_same [OF close_chan.prems(3)]) simp_all
next
  case (worker_local i s e es)
  then have eq: "sent_lines es = sent_lines (workers s ! i)"
    by (simp add: sent_lines_is_local)
  show ?case
    by (rule delivered_ok_same [OF worker_local.prems(3)])
      (use worker_local.hyps(1) in \<open>auto simp: nth_list_update eq\<close>)
next
  case (chan_send i s m es)
  let ?s' = "s\<lparr>workers := (workers s)[i := es], consumer := Printing m,
                   delivered := delivered s @ [(i, m)]\<rparr>"
  from chan_send.prems(2) [rule_format, OF chan_send.hyps(1)]
  obtain pre where "sendRequest L (N i) (cs ! i) = pre @ workers s ! i" ..
  then have "sendRequest L (N i) (cs ! i) = pre @ ChanSend m # es"
    by (simp only: chan_send.hyps(2))
  note pos = send_position [OF this]
  have D: "(j, m') \<in> set (delivered s) \<longleftrightarrow>
          j < length (workers s) \<and> sent_lines (workers s ! j) = [] \<and>
          sent_lines (sendRequest L (N j) (cs ! j)) = [m']" for j m'
    using chan_send.prems(3) unfolding delivered_ok_def by blast
  have old: "(i, m') \<notin> set (delivered s)" for m'
    by (simp add: D chan_send.hyps(2))
  have "(j, m') \<in> set (delivered ?s') \<longleftrightarrow>
          j < length (workers ?s') \<and> sent_lines (workers ?s' ! j) = [] \<and>
          sent_lines (sendRequest L (N j) (cs ! j)) = [m']" for j m'
  proof (cases "j = i")
    case True
    have "(i, m') \<in> set (delivered ?s') \<longleftrightarrow> m' = m"
      using old by auto
    moreover have "i < length (workers ?s') \<and> sent_lines (workers ?s' ! i) = [] \<and>
          sent_lines (sendRequest L (N i) (cs ! i)) = [m'] \<longleftrightarrow> m' = m"
      using pos chan_send.hyps(1) by auto
    ultimately show ?thesis unfolding True by blast
  next
    case False
    then show ?thesis by (simp add: D)
  qed
  moreover have "i \<notin> fst ` set (delivered s)"
    using old by (auto simp: image_iff)
  then have "distinct (map fst (delivered ?s'))"
    using chan_send.prems(3) by (simp add: delivered_ok_def)
  ultimately show ?case unfolding delivered_ok_def by blast
next
  case (wg_done i s es)
  then have eq: "sent_lines es = sent_lines (workers s ! i)"
    by simp
  show ?case
    by (rule delivered_ok_same [OF wg_done.prems(3)])
      (use wg_done.hyps(1) in \<open>auto simp: nth_list_update eq\<close>)
next
  case (consumer_print s m)
  show ?case by (rule delivered_ok_same [OF consumer_print.prems(3)]) simp_all
next
  case (consumer_exit s)
  show ?case by (rule delivered_ok_same [OF consumer_exit.prems(3)]) simp_all
qed

lemma delivered_reach:
  assumes "(step L N)\<^sup>*\<^sup>* (init cs) s"
  shows "delivered_ok L N cs s"
  using assms
proof (induction rule: reach_induct)
  case init
  show ?case by (simp add: init_def delivered_ok_def)
next
  case (step s s')
  from step.hyps(2) pc_ok_reach [OF step.hyps(1)] rest_reach [OF step.hyps(1)] step.IH
  show ?case by (rule delivered_step)
qed


lemma map_fst_outcomes:
  "(\<And>i. i \<in> set js \<Longrightarrow> \<exists>m. G i = [m]) \<Longrightarrow>
     map fst (concat (map (\<lambda>i. map (Pair i) (G i)) js)) = js"
proof (induction js)
  case Nil
  then show ?case by simp
next
  case (Cons j js)
  then obtain m where "G j = [m]" by (meson list.set_intros(1))
  with Cons show ?case by simp
qed

lemma outcomes_indices: "map fst (outcomes L N cs) = [0..<length cs]"
  unfolding outcomes_def
  by (rule map_fst_outcomes) (rule sendRequest_sent_one)

lemma outcomes_set:
  "(i, m) \<in> set (outcomes L N cs) \<longleftrightarrow>
     i < length cs \<and> sent_lines (sendRequest L (N i) (cs ! i)) = [m]"
proof -
  obtain m0 where m0: "sent_lines (sendRequest L (N i) (cs ! i)) = [m0]"
    using sendRequest_sent_one by blast
  have "(i, m) \<in> set (outcomes L N cs) \<longleftrightarrow>
      i < length cs \<and> m \<in> set (sent_lines (sendRequest L (N i) (cs ! i)))"
    by (auto simp: outcomes_def)
  then show ?thesis
    by (auto simp: m0)
qed

lemma sum_list_zero_nth:
  fixes xs :: "nat list"
  shows "sum_list xs = 0 \<Longrightarrow> i < length xs \<Longrightarrow> xs ! i = 0"
  by (simp add: sum_list_eq_0_iff)

lemma finished_workers:
  assumes r: "(step L N)\<^sup>*\<^sup>* (init cs) s" and w: "wg s = 0" and i: "i < length (workers s)"
  shows "workers s ! i = []"
proof (cases "workers s ! i")
  case Nil
  then show ?thesis .
next
  case (Cons e es)
  from rest_reach [OF r, rule_format, OF i]
  obtain pre where "sendRequest L (N i) (cs ! i) = pre @ workers s ! i" ..
  then have "WgDone \<in> set (e # es)"
    unfolding Cons by (rule sendRequest_last_done)
  then have "0 < count_list (workers s ! i) WgDone"
    unfolding Cons by (metis count_list_0_iff gr0I)
  moreover have "sum_list (map (\<lambda>tr. count_list tr WgDone) (workers s)) = 0"
    using wg_reach [OF r] w by simp
  then have "map (\<lambda>tr. count_list tr WgDone) (workers s) ! i = 0"
    by (rule sum_list_zero_nth) (use i in simp)
  ultimately show ?thesis using i by simp
qed

lemma closed_delivered:
  assumes r: "(step L N)\<^sup>*\<^sup>* (init cs) s" and c: "closed s"
  shows "mset (delivered s) = mset (outcomes L N cs)"
proof -
  from ctl_ok_reach [OF r] c have w: "wg s = 0"
    by (simp add: ctl_ok_def)
  from ctl_ok_reach [OF r] c pc_ok_reach [OF r] have n: "length (workers s) = length cs"
    by (simp add: ctl_ok_def pc_ok_def)
  have D: "(i, m) \<in> set (delivered s) \<longleftrightarrow>
          i < length (workers s) \<and> sent_lines (workers s ! i) = [] \<and>
          sent_lines (sendRequest L (N i) (cs ! i)) = [m]" for i m
    using delivered_reach [OF r] unfolding delivered_ok_def by blast
  have "(i, m) \<in> set (delivered s) \<longleftrightarrow> (i, m) \<in> set (outcomes L N cs)" for i m
    using finished_workers [OF r w, of i] by (auto simp: D outcomes_set n)
  then have "set (delivered s) = set (outcomes L N cs)"
    by auto
  moreover have "distinct (delivered s)"
    using delivered_reach [OF r] by (simp add: delivered_ok_def distinct_map)
  moreover have "distinct (outcomes L N cs)"
    using outcomes_indices [of L N cs] distinct_map [of fst "outcomes L N cs"] by simp
  ultimately show ?thesis
    by (simp add: set_eq_iff_mset_eq_distinct)
qed


lemma distinct_subset_mset:
  assumes "distinct xs" and "set xs \<subseteq> set ys"
  shows "mset xs \<subseteq># mset ys"
proof (rule mset_subset_eqI)
  fix a
  show "count (mset xs) a \<le> count (mset ys) a"
  proof (cases "a \<in> set xs")
    case True
    then have "count (mset xs) a = 1"
      using assms(1) by (simp add: distinct_count_atmost_1)
    moreover have "a \<in># mset ys"
      using True assms(2) by auto
    then have "1 \<le> count (mset ys) a"
      by (simp only: count_greater_eq_one_iff)
    ultimately show ?thesis by simp
  next
    case False
    then have "count (mset xs) a = 0"
      by (simp add: count_eq_zero_iff)
    then show ?thesis by (simp only: le0)
  qed
qed

lemma delivered_subset:
  assumes r: "(step L N)\<^sup>*\<^sup>* (init cs) s"
  shows "mset (delivered s) \<subseteq># mset (outcomes L N cs)"
proof -
  have D: "(i, m) \<in> set (delivered s) \<longleftrightarrow>
          i < length (workers s) \<and> sent_lines (workers s ! i) = [] \<and>
          sent_lines (sendRequest L (N i) (cs ! i)) = [m]" for i m
    using delivered_reach [OF r] unfolding delivered_ok_def by blast
  have n: "length (workers s) \<le> length cs"
    using pc_ok_reach [OF r] by (cases "pc s") (simp_all add: pc_ok_def)
  have "(i, m) \<in> set (delivered s) \<Longrightarrow> (i, m) \<in> set (outcomes L N cs)" for i m
    using n by (simp add: D outcomes_set)
  then have "set (delivered s) \<subseteq> set (outcomes L N cs)"
    by auto
  moreover have "distinct (delivered s)"
    using delivered_reach [OF r] by (simp add: delivered_ok_def distinct_map)
  moreover have "distinct (outcomes L N cs)"
    using outcomes_indices [of L N cs] distinct_map [of fst "outcomes L N cs"] by simp
  ultimately show ?thesis
    by (intro distinct_subset_mset)
qed

lemma steps_left_step:
  assumes "step L N s s'" and "pc_ok cs s"
  shows "steps_left L N s' < steps_left L N s"
  using assms
proof (induction rule: step.induct)
  case (wg_add s k)
  then show ?case by (simp add: steps_left_def)
next
  case (go_sendRequest s k)
  then have k: "length (workers s) = k" "k < length (batch s)"
    by (simp_all add: pc_ok_def)
  then have "[k..<length (batch s)] = k # [Suc k..<length (batch s)]"
    by (simp add: upt_conv_Cons)
  with go_sendRequest k show ?case
    by (simp add: steps_left_def)
next
  case (loop_exit s k)
  then show ?case by (simp add: steps_left_def)
next
  case (wg_wait s)
  then show ?case by (simp add: steps_left_def)
next
  case (close_chan s)
  then show ?case by (simp add: steps_left_def)
next
  case (worker_local i s e es)
  then show ?case
    using sum_list_map_update [of i "workers s" length es]
    by (simp add: steps_left_def)
next
  case (chan_send i s m es)
  then show ?case
    using sum_list_map_update [of i "workers s" length es]
    by (simp add: steps_left_def)
next
  case (wg_done i s es)
  then show ?case
    using sum_list_map_update [of i "workers s" length es]
    by (simp add: steps_left_def)
next
  case (consumer_print s m)
  then show ?case by (simp add: steps_left_def)
next
  case (consumer_exit s)
  then show ?case by (simp add: steps_left_def)
qed

lemma steps_bound:
  "(step L N ^^ n) (init cs) s \<Longrightarrow> n + steps_left L N s \<le> steps_left L N (init cs)"
proof (induction n arbitrary: s)
  case 0
  then show ?case by simp
next
  case (Suc n)
  then obtain t where t: "(step L N ^^ n) (init cs) t" and st: "step L N t s"
    by auto
  from t have "(step L N)\<^sup>*\<^sup>* (init cs) t"
    by (rule relpowp_imp_rtranclp)
  then have "pc_ok cs t" by (rule pc_ok_reach)
  with st have "steps_left L N s < steps_left L N t" by (rule steps_left_step)
  with Suc.IH [OF t] show ?case by simp
qed

lemma sum_list_pos_nth:
  fixes xs :: "nat list"
  shows "0 < sum_list xs \<Longrightarrow> \<exists>i<length xs. 0 < xs ! i"
  by (induction xs) (auto simp: nth_Cons split: nat.splits)

lemma progress:
  assumes r: "(step L N)\<^sup>*\<^sup>* (init cs) s" and c: "\<not> closed s"
  shows "\<exists>s'. step L N s s'"
proof (cases "pc s")
  case (LoopHead k)
  then show ?thesis
    by (cases "k < length (batch s)") (blast intro: wg_add loop_exit)+
next
  case (GoStmt k)
  then show ?thesis by (blast intro: go_sendRequest)
next
  case CloseChan
  then show ?thesis by (blast intro: close_chan)
next
  case Returned
  with ctl_ok_reach [OF r] c show ?thesis by (simp add: ctl_ok_def)
next
  case WgWait
  show ?thesis
  proof (cases "wg s = 0")
    case True
    with WgWait show ?thesis by (blast intro: wg_wait)
  next
    case False
    from wg_reach [OF r] WgWait
    have "wg s = sum_list (map (\<lambda>tr. count_list tr WgDone) (workers s))" by simp
    with False have "0 < sum_list (map (\<lambda>tr. count_list tr WgDone) (workers s))"
      by (simp only: neq0_conv)
    then obtain i where i: "i < length (workers s)"
      and pos: "0 < count_list (workers s ! i) WgDone"
      using sum_list_pos_nth [of "map (\<lambda>tr. count_list tr WgDone) (workers s)"] by auto
    then obtain e es where ees: "workers s ! i = e # es"
      by (cases "workers s ! i") auto
    show ?thesis
    proof (cases e)
      case (ChanSend m)
      show ?thesis
      proof (cases "consumer s")
        case Receiving
        with i ees ChanSend c show ?thesis by (blast intro: chan_send)
      next
        case (Printing m')
        then show ?thesis by (blast intro: consumer_print)
      next
        case Exited
        with ctl_ok_reach [OF r] c show ?thesis by (simp add: ctl_ok_def)
      qed
    next
      case WgDone
      with i ees False show ?thesis by (blast intro: wg_done)
    next
      case (SetHeader k v)
      with i ees have "step L N s (s\<lparr>workers := (workers s)[i := es]\<rparr>)"
        by (intro worker_local [of i s e es]) (simp_all add: is_local_def)
      then show ?thesis ..
    next
      case (ClientDo q)
      with i ees have "step L N s (s\<lparr>workers := (workers s)[i := es]\<rparr>)"
        by (intro worker_local [of i s e es]) (simp_all add: is_local_def)
      then show ?thesis ..
    next
      case ReadAllBody
      with i ees have "step L N s (s\<lparr>workers := (workers s)[i := es]\<rparr>)"
        by (intro worker_local [of i s e es]) (simp_all add: is_local_def)
      then show ?thesis ..
    next
      case BodyClose
      with i ees have "step L N s (s\<lparr>workers := (workers s)[i := es]\<rparr>)"
        by (intro worker_local [of i s e es]) (simp_all add: is_local_def)
      then show ?thesis ..
    qed
  qed
qed

lemma eventually_closed:
  assumes "(step L N)\<^sup>*\<^sup>* (init cs) s"
  shows "\<exists>s'. (step L N)\<^sup>*\<^sup>* s s' \<and> closed s'"
  using assms
proof (induction "steps_left L N s" arbitrary: s rule: less_induct)
  case less
  show ?case
  proof (cases "closed s")
    case True
    then show ?thesis by blast
  next
    case False
    with less.prems obtain t where t: "step L N s t"
      using progress by blast
    from less.prems have "pc_ok cs s" by (rule pc_ok_reach)
    with t have "steps_left L N t < steps_left L N s" by (rule steps_left_step)
    moreover from less.prems t have "(step L N)\<^sup>*\<^sup>* (init cs) t" by simp
    ultimately obtain s' where "(step L N)\<^sup>*\<^sup>* t s'" and "closed s'"
      using less.hyps by blast
    with t have "(step L N)\<^sup>*\<^sup>* s s'" by simp
    with \<open>closed s'\<close> show ?thesis by blast
  qed
qed

subsection \<open>Interleavings are runs of the transition system\<close>

lemma wg_add_Suc:
  "pc s = LoopHead k \<Longrightarrow> k < length (batch s) \<Longrightarrow>
     step L N s (s\<lparr>wg := Suc (wg s), pc := GoStmt k\<rparr>)"
  using wg_add [of s k L N] by simp

lemma wg_done_Suc:
  "i < length (workers s) \<Longrightarrow> workers s ! i = WgDone # es \<Longrightarrow> 0 < wg s \<Longrightarrow>
     step L N s (s\<lparr>workers := (workers s)[i := es], wg := wg s - Suc 0\<rparr>)"
  using wg_done [of i s es L N] by simp

lemma main_turn_step: "main_turn L N s = Some s' \<Longrightarrow> step L N s s'"
  by (auto simp: main_turn_def split: main_pc.splits if_splits intro: step.intros wg_add_Suc)

lemma worker_turn_step: "worker_turn i s = Some s' \<Longrightarrow> step L N s s'"
  by (auto simp: worker_turn_def is_local_def split: list.splits event.splits if_splits
      intro: step.intros wg_done_Suc)

lemma consumer_turn_step: "consumer_turn s = Some s' \<Longrightarrow> step L N s s'"
  by (auto simp: consumer_turn_def split: consumer.splits if_splits intro: step.intros)

lemma take_turn_step: "take_turn L N t s = Some s' \<Longrightarrow> step L N s s'"
  by (cases t) (auto intro: main_turn_step worker_turn_step consumer_turn_step)

lemma schedule_steps:
  "schedule L N ts s = Some s' \<Longrightarrow> (step L N ^^ length ts) s s'"
proof (induction ts arbitrary: s)
  case Nil
  then show ?case by simp
next
  case (Cons t ts)
  then obtain s1 where t: "take_turn L N t s = Some s1" and r: "schedule L N ts s1 = Some s'"
    by (auto split: option.splits)
  from t have "step L N s s1" by (rule take_turn_step)
  moreover from r have "(step L N ^^ length ts) s1 s'" by (rule Cons.IH)
  ultimately have "(step L N ^^ Suc (length ts)) s s'" by (rule relpowp_Suc_I2)
  then show ?case by simp
qed

lemmas turn_defs = main_turn_def worker_turn_def consumer_turn_def init_def

lemma trace_get_ok:
  "sendRequest lib0 net0 get_ok =
     [ClientDo \<lparr>rq_Method = ''GET'', rq_URL = ''https://example.test/ok'',
                 rq_Header = Map.empty, rq_Body = None\<rparr>,
      ReadAllBody, ChanSend ''Response from https://example.test/ok: hello'', BodyClose, WgDone]"
  by (simp add: sendRequest_def new_request_def http_NewRequest_def set_headers_def
      lib0_def net0_def get_ok_def)

lemma trace_get_down:
  "sendRequest lib0 net0 get_down =
     [ClientDo \<lparr>rq_Method = ''GET'', rq_URL = ''https://example.test/down'',
                 rq_Header = Map.empty, rq_Body = None\<rparr>,
      ChanSend ''Error sending request to https://example.test/down: connection refused'',
      WgDone]"
  by (simp add: sendRequest_def new_request_def http_NewRequest_def set_headers_def
      lib0_def net0_def get_down_def)

lemma trace_get_nowhere:
  "sendRequest lib0 net0 get_nowhere =
     [ChanSend ''Error creating request for : empty url'', WgDone]"
  by (simp add: sendRequest_def new_request_def http_NewRequest_def set_headers_def
      lib0_def net0_def get_nowhere_def)

lemma sched_ok_down: "schedule lib0 (\<lambda>i. net0) run_ok_down (init [get_ok, get_down]) = Some end_ok_down"
  by (simp add: run_ok_down_def end_ok_down_def turn_defs trace_get_ok trace_get_down)

lemma sched_nowhere_down:
  "schedule lib0 (\<lambda>i. net0) run_nowhere_down (init [get_nowhere, get_down]) = Some end_nowhere_down"
  by (simp add: run_nowhere_down_def end_nowhere_down_def turn_defs trace_get_nowhere trace_get_down)


lemma reach_of_steps: "(step L N ^^ n) (init cs) s \<Longrightarrow> (step L N)\<^sup>*\<^sup>* (init cs) s"
  by (rule relpowp_imp_rtranclp)

lemma filter_index_unique:
  "distinct (map fst xs) \<Longrightarrow> (i, m) \<in> set xs \<Longrightarrow> filter (\<lambda>d. fst d = i) xs = [(i, m)]"
proof (induction xs)
  case Nil
  then show ?case by simp
next
  case (Cons x xs)
  show ?case
  proof (cases "x = (i, m)")
    case True
    with Cons.prems have "\<forall>d\<in>set xs. fst d \<noteq> i" by force
    then have "filter (\<lambda>d. fst d = i) xs = []" by (simp add: filter_empty_conv)
    with True show ?thesis by simp
  next
    case False
    with Cons.prems have "(i, m) \<in> set xs" by simp
    then have "i \<in> fst ` set xs" by (metis fst_conv image_eqI)
    then have "fst x \<noteq> i" using Cons.prems(1) by auto
    moreover have "filter (\<lambda>d. fst d = i) xs = [(i, m)]"
      using Cons.prems \<open>(i, m) \<in> set xs\<close> by (intro Cons.IH) simp_all
    ultimately show ?thesis by simp
  qed
qed

lemma closed_outcome_of:
  assumes r: "(step L N)\<^sup>*\<^sup>* (init cs) s" and c: "closed s" and i: "i < length cs"
    and m: "sent_lines (sendRequest L (N i) (cs ! i)) = [m]"
  shows "filter (\<lambda>d. fst d = i) (delivered s) = [(i, m)]"
proof -
  have "(i, m) \<in> set (outcomes L N cs)"
    using i m by (simp add: outcomes_set)
  then have "(i, m) \<in># mset (delivered s)"
    using closed_delivered [OF r c] by simp
  then have "(i, m) \<in> set (delivered s)" by simp
  moreover have "distinct (map fst (delivered s))"
    using delivered_reach [OF r] by (simp add: delivered_ok_def)
  ultimately show ?thesis by (intro filter_index_unique)
qed

lemma no_panic:
  assumes r: "(step L N)\<^sup>*\<^sup>* (init cs) s" and i: "i < length (workers s)"
  shows "(workers s ! i = ChanSend m # es \<longrightarrow> \<not> closed s) \<and>
         (workers s ! i = WgDone # es \<longrightarrow> 0 < wg s)"
proof (intro conjI impI)
  assume a: "workers s ! i = ChanSend m # es"
  show "\<not> closed s"
  proof
    assume "closed s"
    with ctl_ok_reach [OF r] have "wg s = 0" by (simp add: ctl_ok_def)
    from finished_workers [OF r this i] a show False by simp
  qed
next
  assume a: "workers s ! i = WgDone # es"
  show "0 < wg s"
  proof (rule ccontr)
    assume "\<not> 0 < wg s"
    then have "wg s = 0" by simp
    from finished_workers [OF r this i] a show False by simp
  qed
qed

lemma empty_batch_silent:
  assumes "(step L N ^^ n) (init []) s"
  shows "delivered s = [] \<and> printed s = []"
proof -
  note r = reach_of_steps [OF assms]
  have "mset (delivered s) \<subseteq># mset (outcomes L N [])"
    using r by (rule delivered_subset)
  then have d: "delivered s = []"
    by (simp add: outcomes_def)
  with ctl_ok_reach [OF r] show ?thesis
    by (simp add: ctl_ok_def)
qed

subsection \<open>Completeness, isolation, frame\<close>

text \<open>
  C1. For every batch of N descriptors and every interleaving of the goroutines of
  a dispatch (each library call taken to return): the dispatch takes a bounded number
  of steps; as long as the channel is not closed some goroutine can take a step, so
  the run goes on to the close; no outcome is ever delivered twice or delivered
  without being an outcome of the batch; and once the channel is closed it has
  delivered exactly the N outcomes of the batch, one per descriptor, whatever each
  of them is. For the empty batch the bound is four steps (three of the main
  goroutine and the consumer's exit) and nothing is ever delivered.
\<close>

theorem dispatch_delivers_every_outcome:
  assumes "(step L N ^^ n) (init cs) s"
  shows "n \<le> steps_left L N (init cs)
     \<and> map fst (outcomes L N cs) = [0..<length cs]
     \<and> mset (delivered s) \<subseteq># mset (outcomes L N cs)
     \<and> (closed s \<longrightarrow> mset (delivered s) = mset (outcomes L N cs) \<and>
                       length (delivered s) = length cs)
     \<and> (\<not> closed s \<longrightarrow> (\<exists>s'. step L N s s'))
     \<and> (\<exists>s'. (step L N)\<^sup>*\<^sup>* s s' \<and> closed s')
     \<and> (cs = [] \<longrightarrow> steps_left L N (init cs) = 4 \<and> delivered s = [])"
proof (intro conjI impI)
  note r = reach_of_steps [OF assms]
  show "steps_left L N (init cs) = 4" if "cs = []"
    using that by (simp add: steps_left_def init_def)
  show "delivered s = []" if "cs = []"
    using empty_batch_silent [where L = L and N = N and n = n and s = s] assms that by simp
  show "\<exists>s'. (step L N)\<^sup>*\<^sup>* s s' \<and> closed s'"
    using r by (rule eventually_closed)
  show "n \<le> steps_left L N (init cs)"
    using steps_bound [OF assms] by simp
  show "map fst (outcomes L N cs) = [0..<length cs]"
    by (rule outcomes_indices)
  show "mset (delivered s) \<subseteq># mset (outcomes L N cs)"
    using r by (rule delivered_subset)
  show "mset (delivered s) = mset (outcomes L N cs)" if "closed s"
    using r that by (rule closed_delivered)
  show "length (delivered s) = length cs" if "closed s"
  proof -
    have "length (delivered s) = length (outcomes L N cs)"
      using closed_delivered [OF r that] by (metis size_mset)
    also have "\<dots> = length (map fst (outcomes L N cs))" by simp
    also have "\<dots> = length cs" by (simp only: outcomes_indices length_upt diff_zero)
    finally show ?thesis .
  qed
  show "\<exists>s'. step L N s s'" if "\<not> closed s"
    using r that by (rule progress)
qed

theorem dispatch_delivers_every_outcome_witness:
  "schedule lib0 (\<lambda>i. net0) [Main, Main, Main] (init []) =
     Some \<lparr>batch = [], pc = Returned, wg = 0, workers = [], consumer = Receiving,
           delivered = [], printed = [], closed = True\<rparr>
   \<and> schedule lib0 (\<lambda>i. net0) run_ok_down (init [get_ok, get_down]) = Some end_ok_down
   \<and> closed end_ok_down
   \<and> mset (delivered end_ok_down) = mset (outcomes lib0 (\<lambda>i. net0) [get_ok, get_down])
   \<and> length (delivered end_ok_down) = 2"
proof -
  have e: "schedule lib0 (\<lambda>i. net0) [Main, Main, Main] (init []) =
     Some \<lparr>batch = [], pc = Returned, wg = 0, workers = [], consumer = Receiving,
           delivered = [], printed = [], closed = True\<rparr>"
    by (simp add: turn_defs)
  have c: "closed end_ok_down" by (simp add: end_ok_down_def)
  from dispatch_delivers_every_outcome [OF schedule_steps [OF sched_ok_down]] c
  have "mset (delivered end_ok_down) = mset (outcomes lib0 (\<lambda>i. net0) [get_ok, get_down])"
    and "length (delivered end_ok_down) = length [get_ok, get_down]"
    by blast+
  with e c sched_ok_down show ?thesis by simp
qed

text \<open>
  C5. Take two dispatches whose batches and networks agree on descriptor \<open>i\<close> and
  are arbitrary elsewhere. When both have closed their channels, each has delivered
  exactly one outcome for \<open>i\<close>, the same in both: the line sendRequest sends for that
  descriptor alone. No failure stops a dispatch: before the close some goroutine can
  always take a step, no goroutine ever stands at a send on the closed channel, and
  none at a \<^verbatim>\<open>wg.Done()\<close> on a zero counter.
\<close>

theorem sibling_isolation:
  assumes "(step L N ^^ n) (init cs) s" and "(step L N' ^^ n') (init cs') s'"
    and "i < length cs" and "i < length cs'" and "cs' ! i = cs ! i" and "N' i = N i"
  shows "(closed s \<and> closed s' \<longrightarrow>
           (\<exists>m. sent_lines (sendRequest L (N i) (cs ! i)) = [m]
              \<and> filter (\<lambda>d. fst d = i) (delivered s) = [(i, m)]
              \<and> filter (\<lambda>d. fst d = i) (delivered s') = [(i, m)]))
       \<and> (\<not> closed s \<longrightarrow> (\<exists>t. step L N s t))
       \<and> (\<forall>j m es. j < length (workers s) \<longrightarrow>
             (workers s ! j = ChanSend m # es \<longrightarrow> \<not> closed s) \<and>
             (workers s ! j = WgDone # es \<longrightarrow> 0 < wg s))"
proof (intro conjI impI allI)
  note r = reach_of_steps [OF assms(1)] and r' = reach_of_steps [OF assms(2)]
  show "\<exists>m. sent_lines (sendRequest L (N i) (cs ! i)) = [m]
           \<and> filter (\<lambda>d. fst d = i) (delivered s) = [(i, m)]
           \<and> filter (\<lambda>d. fst d = i) (delivered s') = [(i, m)]"
    if c: "closed s \<and> closed s'"
  proof -
    obtain m where m: "sent_lines (sendRequest L (N i) (cs ! i)) = [m]"
      using sendRequest_sent_one by blast
    then have m': "sent_lines (sendRequest L (N' i) (cs' ! i)) = [m]"
      using assms(5,6) by simp
    have "filter (\<lambda>d. fst d = i) (delivered s) = [(i, m)]"
      using r c [THEN conjunct1] assms(3) m by (rule closed_outcome_of)
    moreover have "filter (\<lambda>d. fst d = i) (delivered s') = [(i, m)]"
      using r' c [THEN conjunct2] assms(4) m' by (rule closed_outcome_of)
    ultimately show ?thesis using m by blast
  qed
  show "\<exists>t. step L N s t" if "\<not> closed s"
    using r that by (rule progress)
  show "\<not> closed s" if "j < length (workers s)" and "workers s ! j = ChanSend m # es" for j m es
    using no_panic [OF r that(1)] that(2) by blast
  show "0 < wg s" if "j < length (workers s)" and "workers s ! j = WgDone # es" for j es
    using no_panic [OF r that(1)] that(2) by blast
qed

theorem sibling_isolation_witness:
  "closed end_ok_down \<and> closed end_nowhere_down
   \<and> filter (\<lambda>d. fst d = 1) (delivered end_ok_down)
       = [(1, ''Error sending request to https://example.test/down: connection refused'')]
   \<and> filter (\<lambda>d. fst d = 1) (delivered end_nowhere_down)
       = [(1, ''Error sending request to https://example.test/down: connection refused'')]"
proof -
  have c: "closed end_ok_down" "closed end_nowhere_down" by (simp_all add: end_ok_down_def end_nowhere_down_def)
  from sibling_isolation [OF schedule_steps [OF sched_ok_down] schedule_steps [OF sched_nowhere_down],
      of 1]
  show ?thesis
    using c by (simp add: end_ok_down_def end_nowhere_down_def trace_get_down)
qed

text \<open>
  C8. In every state a dispatch can reach, the batch is the one it was called with:
  the descriptor sequence and every target, method, header mapping and body mapping
  in it. All that an execution of sendRequest writes are the header of the request
  it has built itself, the channel and the wait group.
\<close>

theorem batch_unchanged:
  assumes "(step L N ^^ n) (init cs) s"
  shows "batch s = cs"
  using pc_ok_reach [OF reach_of_steps [OF assms]] by (simp add: pc_ok_def)

theorem batch_unchanged_witness:
  "batch end_ok_down = [get_ok, get_down]"
  using batch_unchanged [OF schedule_steps [OF sched_ok_down]] .

section \<open>Properties of the decoding and of the handler\<close>

lemma Config_fields_filter:
  "unmarshal_Config_fields L ms c =
     unmarshal_Config_fields L (filter (\<lambda>(k, j). key_matches L k ''requests'') ms) c"
proof (induction ms arbitrary: c)
  case Nil
  show ?case by simp
next
  case (Cons m ms)
  obtain k j where m: "m = (k, j)" by (cases m)
  show ?case
  proof (cases "key_matches L k ''requests''")
    case True
    then show ?thesis
      by (simp add: m Cons.IH split: sum.splits)
  next
    case False
    then show ?thesis
      by (simp add: m unmarshal_Config_field_def Cons.IH)
  qed
qed

lemma RequestConfig_fields_filter:
  "unmarshal_RequestConfig_fields L ms c =
     unmarshal_RequestConfig_fields L (filter (\<lambda>(k, j). is_RequestConfig_field L k) ms) c"
proof (induction ms arbitrary: c)
  case Nil
  show ?case by simp
next
  case (Cons m ms)
  obtain k j where m: "m = (k, j)" by (cases m)
  show ?case
  proof (cases "is_RequestConfig_field L k")
    case True
    then show ?thesis
      by (simp add: m Cons.IH split: sum.splits)
  next
    case False
    then have "unmarshal_RequestConfig_field L k j c = Inr c"
      by (simp add: unmarshal_RequestConfig_field_def is_RequestConfig_field_def)
    with False show ?thesis
      by (simp add: m Cons.IH)
  qed
qed

lemma field_keeps_URL:
  "unmarshal_RequestConfig_field L k j c0 = Inr c \<Longrightarrow> \<not> key_matches L k ''url'' \<Longrightarrow> URL c = URL c0"
  by (auto simp: unmarshal_RequestConfig_field_def split: if_splits sum.splits)

lemma field_keeps_Method:
  "unmarshal_RequestConfig_field L k j c0 = Inr c \<Longrightarrow> \<not> key_matches L k ''method'' \<Longrightarrow>
     Method c = Method c0"
  by (auto simp: unmarshal_RequestConfig_field_def split: if_splits sum.splits)

lemma field_keeps_Headers:
  "unmarshal_RequestConfig_field L k j c0 = Inr c \<Longrightarrow> \<not> key_matches L k ''headers'' \<Longrightarrow>
     Headers c = Headers c0"
  by (auto simp: unmarshal_RequestConfig_field_def split: if_splits sum.splits)

lemma field_keeps_Body:
  "unmarshal_RequestConfig_field L k j c0 = Inr c \<Longrightarrow> \<not> key_matches L k ''body'' \<Longrightarrow>
     Body c = Body c0"
  by (auto simp: unmarshal_RequestConfig_field_def split: if_splits sum.splits)

lemma fields_keep:
  assumes "unmarshal_RequestConfig_fields L ms c0 = Inr c"
  shows "(\<forall>k j. (k, j) \<in> set ms \<longrightarrow> \<not> key_matches L k ''url'') \<Longrightarrow> URL c = URL c0"
    and "(\<forall>k j. (k, j) \<in> set ms \<longrightarrow> \<not> key_matches L k ''method'') \<Longrightarrow> Method c = Method c0"
    and "(\<forall>k j. (k, j) \<in> set ms \<longrightarrow> \<not> key_matches L k ''headers'') \<Longrightarrow> Headers c = Headers c0"
    and "(\<forall>k j. (k, j) \<in> set ms \<longrightarrow> \<not> key_matches L k ''body'') \<Longrightarrow> Body c = Body c0"
  using assms
proof (induction ms arbitrary: c0)
  case Nil
  { case 1 then show ?case by simp }
  { case 2 then show ?case by simp }
  { case 3 then show ?case by simp }
  { case 4 then show ?case by simp }
next
  case (Cons m ms)
  obtain k j where m: "m = (k, j)" by (cases m)
  { case 1
    then obtain c1 where c1: "unmarshal_RequestConfig_field L k j c0 = Inr c1"
        and r: "unmarshal_RequestConfig_fields L ms c1 = Inr c"
      by (auto simp: m split: sum.splits)
    from 1 have "URL c = URL c1" by (intro Cons.IH(1) [OF _ r]) auto
    moreover from 1 have "URL c1 = URL c0" by (intro field_keeps_URL [OF c1]) (auto simp: m)
    ultimately show ?case by simp }
  { case 2
    then obtain c1 where c1: "unmarshal_RequestConfig_field L k j c0 = Inr c1"
        and r: "unmarshal_RequestConfig_fields L ms c1 = Inr c"
      by (auto simp: m split: sum.splits)
    from 2 have "Method c = Method c1" by (intro Cons.IH(2) [OF _ r]) auto
    moreover from 2 have "Method c1 = Method c0" by (intro field_keeps_Method [OF c1]) (auto simp: m)
    ultimately show ?case by simp }
  { case 3
    then obtain c1 where c1: "unmarshal_RequestConfig_field L k j c0 = Inr c1"
        and r: "unmarshal_RequestConfig_fields L ms c1 = Inr c"
      by (auto simp: m split: sum.splits)
    from 3 have "Headers c = Headers c1" by (intro Cons.IH(3) [OF _ r]) auto
    moreover from 3 have "Headers c1 = Headers c0" by (intro field_keeps_Headers [OF c1]) (auto simp: m)
    ultimately show ?case by simp }
  { case 4
    then obtain c1 where c1: "unmarshal_RequestConfig_field L k j c0 = Inr c1"
        and r: "unmarshal_RequestConfig_fields L ms c1 = Inr c"
      by (auto simp: m split: sum.splits)
    from 4 have "Body c = Body c1" by (intro Cons.IH(4) [OF _ r]) auto
    moreover from 4 have "Body c1 = Body c0" by (intro field_keeps_Body [OF c1]) (auto simp: m)
    ultimately show ?case by simp }
qed

lemma Config_fields_unknown:
  assumes "\<forall>k j. (k, j) \<in> set ms \<longrightarrow> \<not> key_matches L k ''requests''"
  shows "unmarshal_Config_fields L ms c = Inr c"
proof -
  have "filter (\<lambda>(k, j). key_matches L k ''requests'') ms = []"
    using assms by (auto simp: filter_empty_conv)
  then show ?thesis
    using Config_fields_filter [of L ms c] by simp
qed

lemma RequestConfig_fields_unknown:
  assumes "\<forall>k j. (k, j) \<in> set ms \<longrightarrow> \<not> is_RequestConfig_field L k"
  shows "unmarshal_RequestConfig_fields L ms c = Inr c"
proof -
  have "filter (\<lambda>(k, j). is_RequestConfig_field L k) ms = []"
    using assms by (auto simp: filter_empty_conv)
  then show ?thesis
    using RequestConfig_fields_filter [of L ms c] by simp
qed

text \<open>
  C9. Decoding is lenient. A JSON object with no member for \<open>requests\<close> (such as
  \<open>{}\<close>) decodes without error to the empty batch, so the handler enters the
  dispatch with no descriptor, and a dispatch of the empty batch delivers and writes
  nothing. Members whose keys match no field are ignored, at the top level and in a
  descriptor; a descriptor object without any known member is accepted; and a field
  with no member in the object keeps its zero value: the empty string for \<open>url\<close>
  and \<open>method\<close>, no entries for \<open>headers\<close>, the nil map for \<open>body\<close>.
\<close>

theorem lenient_decoding:
  "(\<forall>ms. json_syntax L body = Some (JObject ms) \<and>
        (\<forall>k j. (k, j) \<in> set ms \<longrightarrow> \<not> key_matches L k ''requests'') \<longrightarrow>
      loadConfigFromBody L body = Inr \<lparr>Requests = []\<rparr> \<and>
      handleAPIRequest L \<lparr>in_Method = ''POST'', in_Body = Inr body\<rparr>
        = [ReadBody, LoadConfig body, Dispatch []]) \<and>
   (\<forall>n s. (step L N ^^ n) (init []) s \<longrightarrow> delivered s = [] \<and> printed s = []) \<and>
   (\<forall>ms c. unmarshal_Config L (JObject ms) c =
      unmarshal_Config L (JObject (filter (\<lambda>(k, j). key_matches L k ''requests'') ms)) c) \<and>
   (\<forall>ms c. unmarshal_RequestConfig L (JObject ms) c =
      unmarshal_RequestConfig L (JObject (filter (\<lambda>(k, j). is_RequestConfig_field L k) ms)) c) \<and>
   (\<forall>ms c. (\<forall>k j. (k, j) \<in> set ms \<longrightarrow> \<not> is_RequestConfig_field L k) \<longrightarrow>
      unmarshal_RequestConfig L (JObject ms) c = Inr c) \<and>
   (\<forall>ms c. unmarshal_RequestConfig L (JObject ms) zero_RequestConfig = Inr c \<longrightarrow>
      ((\<forall>k j. (k, j) \<in> set ms \<longrightarrow> \<not> key_matches L k ''url'') \<longrightarrow> URL c = []) \<and>
      ((\<forall>k j. (k, j) \<in> set ms \<longrightarrow> \<not> key_matches L k ''method'') \<longrightarrow> Method c = []) \<and>
      ((\<forall>k j. (k, j) \<in> set ms \<longrightarrow> \<not> key_matches L k ''headers'') \<longrightarrow> Headers c = []) \<and>
      ((\<forall>k j. (k, j) \<in> set ms \<longrightarrow> \<not> key_matches L k ''body'') \<longrightarrow> Body c = None))"
proof (intro conjI allI impI)
  fix ms :: "(string \<times> json) list"
  assume a: "json_syntax L body = Some (JObject ms) \<and>
        (\<forall>k j. (k, j) \<in> set ms \<longrightarrow> \<not> key_matches L k ''requests'')"
  then show l: "loadConfigFromBody L body = Inr \<lparr>Requests = []\<rparr>"
    by (simp add: loadConfigFromBody_def Config_fields_unknown)
  then show "handleAPIRequest L \<lparr>in_Method = ''POST'', in_Body = Inr body\<rparr>
        = [ReadBody, LoadConfig body, Dispatch []]"
    by (simp add: handleAPIRequest_def)
next
  fix n s assume "(step L N ^^ n) (init []) s"
  then show "delivered s = []" "printed s = []"
    using empty_batch_silent by blast+
next
  fix ms :: "(string \<times> json) list" and c :: Config
  show "unmarshal_Config L (JObject ms) c =
      unmarshal_Config L (JObject (filter (\<lambda>(k, j). key_matches L k ''requests'') ms)) c"
    using Config_fields_filter [of L ms c] by simp
next
  fix ms :: "(string \<times> json) list" and c :: RequestConfig
  show "unmarshal_RequestConfig L (JObject ms) c =
      unmarshal_RequestConfig L (JObject (filter (\<lambda>(k, j). is_RequestConfig_field L k) ms)) c"
    using RequestConfig_fields_filter [of L ms c] by simp
next
  fix ms :: "(string \<times> json) list" and c :: RequestConfig
  assume "\<forall>k j. (k, j) \<in> set ms \<longrightarrow> \<not> is_RequestConfig_field L k"
  then show "unmarshal_RequestConfig L (JObject ms) c = Inr c"
    by (simp add: RequestConfig_fields_unknown)
next
  fix ms :: "(string \<times> json) list" and c :: RequestConfig
  assume "unmarshal_RequestConfig L (JObject ms) zero_RequestConfig = Inr c"
  then have f: "unmarshal_RequestConfig_fields L ms zero_RequestConfig = Inr c" by simp
  show "URL c = []" if "\<forall>k j. (k, j) \<in> set ms \<longrightarrow> \<not> key_matches L k ''url''"
    using fields_keep(1) [OF f that] by (simp add: zero_RequestConfig_def)
  show "Method c = []" if "\<forall>k j. (k, j) \<in> set ms \<longrightarrow> \<not> key_matches L k ''method''"
    using fields_keep(2) [OF f that] by (simp add: zero_RequestConfig_def)
  show "Headers c = []" if "\<forall>k j. (k, j) \<in> set ms \<longrightarrow> \<not> key_matches L k ''headers''"
    using fields_keep(3) [OF f that] by (simp add: zero_RequestConfig_def)
  show "Body c = None" if "\<forall>k j. (k, j) \<in> set ms \<longrightarrow> \<not> key_matches L k ''body''"
    using fields_keep(4) [OF f that] by (simp add: zero_RequestConfig_def)
qed

theorem lenient_decoding_witness:
  "loadConfigFromBody lib0 ''{}'' = Inr \<lparr>Requests = []\<rparr>
   \<and> handleAPIRequest lib0 \<lparr>in_Method = ''POST'', in_Body = Inr ''{}''\<rparr>
       = [ReadBody, LoadConfig ''{}'', Dispatch []]
   \<and> map_sum id (\<lambda>s. (delivered s, printed s))
        (case schedule lib0 (\<lambda>i. net0) [Main, Main, Main] (init []) of
           None \<Rightarrow> Inl () | Some s \<Rightarrow> Inr s) = Inr ([], [])
   \<and> unmarshal_Config lib0 (JObject [(''comment'', JString ''none''),
        (''requests'', JArray [JObject [(''url'', JString ''https://example.test/ok''),
                                        (''retries'', JNumber ''3'')]])]) \<lparr>Requests = []\<rparr>
       = Inr \<lparr>Requests = [\<lparr>URL = ''https://example.test/ok'', Method = [], Headers = [],
                            Body = None\<rparr>]\<rparr>"
proof -
  have s: "json_syntax lib0 ''{}'' = Some (JObject [])"
    by (simp add: lib0_def)
  note t = lenient_decoding [of lib0 "''{}''" "\<lambda>i. net0"]
  from t [THEN conjunct1, rule_format, of "[]"] s
  have "loadConfigFromBody lib0 ''{}'' = Inr \<lparr>Requests = []\<rparr>"
    and "handleAPIRequest lib0 \<lparr>in_Method = ''POST'', in_Body = Inr ''{}''\<rparr>
       = [ReadBody, LoadConfig ''{}'', Dispatch []]"
    by simp_all
  moreover have "map_sum id (\<lambda>s. (delivered s, printed s))
        (case schedule lib0 (\<lambda>i. net0) [Main, Main, Main] (init []) of
           None \<Rightarrow> Inl () | Some s \<Rightarrow> Inr s) = Inr ([], [])"
    by (simp add: turn_defs)
  moreover have "unmarshal_Config lib0 (JObject [(''comment'', JString ''none''),
        (''requests'', JArray [JObject [(''url'', JString ''https://example.test/ok''),
                                        (''retries'', JNumber ''3'')]])]) \<lparr>Requests = []\<rparr>
       = Inr \<lparr>Requests = [\<lparr>URL = ''https://example.test/ok'', Method = [], Headers = [],
                            Body = None\<rparr>]\<rparr>"
    by (simp add: unmarshal_Config_field_def unmarshal_RequestConfig_field_def key_matches_def
        lib0_def zero_RequestConfig_def)
  ultimately show ?thesis by simp
qed

text \<open>
  C10. For an inbound request whose method is not POST, all the handler does is
  answer with status 405 and the message \<open>Only POST method is supported\<close>: it does
  not read the body, decode a batch or dispatch.
\<close>

theorem non_POST_rejected:
  "in_Method r \<noteq> ''POST'' \<longrightarrow>
     handleAPIRequest L r = [HttpError ''Only POST method is supported'' 405] \<and>
     ReadBody \<notin> set (handleAPIRequest L r) \<and>
     (\<forall>body. LoadConfig body \<notin> set (handleAPIRequest L r)) \<and>
     (\<forall>cs. Dispatch cs \<notin> set (handleAPIRequest L r))"
  by (simp add: handleAPIRequest_def)

theorem non_POST_rejected_witness:
  "handleAPIRequest lib0 get_page = [HttpError ''Only POST method is supported'' 405]"
  using non_POST_rejected [of get_page lib0] by (simp add: get_page_def)

end
